theory Spec2Isabelle
  imports Main "HOL-Library.Word"
begin

section \<open>Index-backed multi-mod query engine (db/IndexQuery.go)\<close>

text \<open>
  A shallow embedding of \<^verbatim>\<open>IndexQuery\<close> and its methods, and of
  \<^verbatim>\<open>MultiModSearch.Satisfies\<close>. Go values are modelled as follows.
  \<^item> \<^verbatim>\<open>uint16\<close> is \<open>16 word\<close>: multiplication wraps, comparison is unsigned.
  \<^item> \<^verbatim>\<open>int\<close> is \<open>int\<close>; the counters of the engine stay far below 64 bits.
  \<^item> \<^verbatim>\<open>[]byte\<close> is a list of bytes; a slice that may be \<^verbatim>\<open>nil\<close> is an option.
  \<^item> A run-time panic is a value of type \<open>panic\<close>, returned as \<open>Inl\<close>.
  \<^item> A Go \<^verbatim>\<open>error\<close> is a value of type \<open>error\<close>; a function returning
    \<^verbatim>\<open>(x, error)\<close> returns the pair, with \<open>None\<close> for the nil error.
  \<^item> The context \<^verbatim>\<open>q.ctx\<close> is mutated in place by the methods of the query; the
    model passes it explicitly and returns the updated context.
\<close>

subsection \<open>Basic types\<close>

type_synonym bytes = "8 word list"
type_synonym uint16 = "16 word"
type_synonym ID = "8 word list"
type_synonym StringHeapID = nat
type_synonym LeagueHeapID = nat

datatype panic =
    NilDereference
  | IndexOutOfRange
  | MakesliceCapOutOfRange
  | ExplicitPanic string

text \<open>
  Errors are built by \<^verbatim>\<open>errors.New\<close>/\<^verbatim>\<open>errors.Errorf\<close> (a message; the formatted
  arguments are left out of the model) and by \<^verbatim>\<open>errors.Wrap\<close>.
\<close>

datatype error = ErrorMsg string | Wrap error string

subsection \<open>The key-value store seen by the engine\<close>

text \<open>
  Modelled from the spec: the ordered key-value store (bolt) is an external library.
  A bucket is the list of its stored pairs in ascending key order. A cursor yields the
  pairs in descending key order: a nested sub-bucket as \<^verbatim>\<open>(nil, non-nil)\<close>, a
  key-value pair as \<^verbatim>\<open>(k, v)\<close>, and \<^verbatim>\<open>(nil, nil)\<close> once it is exhausted.
  The state of a cursor is the list of the pairs it has not yielded yet, highest first.
\<close>

datatype pair = NestedBucket bytes | KeyValue bytes bytes

type_synonym bucket = "pair list"
type_synonym cursor = "pair list"

fun pair_kv :: "pair \<Rightarrow> bytes option \<times> bytes option" where
  "pair_kv (NestedBucket v) = (None, Some v)"
| "pair_kv (KeyValue k v) = (Some k, Some v)"

definition Cursor :: "bucket \<Rightarrow> cursor" where
  "Cursor b = rev b"

fun cursor_Prev :: "cursor \<Rightarrow> (bytes option \<times> bytes option) \<times> cursor" where
  "cursor_Prev [] = ((None, None), [])"
| "cursor_Prev (p # ps) = (pair_kv p, ps)"

text \<open>
  Modelled from the spec: \<^verbatim>\<open>Last()\<close> positions the cursor at the tail of its bucket and
  returns the pair there. \<^verbatim>\<open>Run\<close> calls it only on a cursor fresh from
  \<^verbatim>\<open>Cursor()\<close>, where the tail is the first pair the cursor yields.
\<close>

definition cursor_Last :: "cursor \<Rightarrow> (bytes option \<times> bytes option) \<times> cursor" where
  "cursor_Last c = cursor_Prev c"

text \<open>A \<^verbatim>\<open>nil\<close> slice holds no bytes.\<close>

fun slice :: "bytes option \<Rightarrow> bytes" where
  "slice None = []"
| "slice (Some b) = b"

subsection \<open>IndexQuery and its context\<close>

definition LookupItemsMultiModStrideLength :: int where
  "LookupItemsMultiModStrideLength = 32"

record indexQueryContext =
  validCursors :: int
  cursors :: "cursor option list"
  set_ids :: "ID \<rightharpoonup> int"
  result :: "ID list"

record IndexQuery =
  rootType :: StringHeapID
  rootFlavor :: StringHeapID
  mods :: "StringHeapID list"
  minModValues :: "uint16 list"
  league :: LeagueHeapID
  maxDesired :: int
  ctx :: "indexQueryContext option"

text \<open>
  The functions of the repository that are not part of the engine are parameters:
  \<^item> \<open>gb\<close> is \<^verbatim>\<open>getItemModIndexBucketRO\<close> under the transaction of the run;
  \<^item> \<open>dk\<close> is \<^verbatim>\<open>decodeModIndexKey\<close>;
  \<^item> \<open>fe\<close> lists the IDs that \<^verbatim>\<open>IndexEntry(v).ForEachID\<close> visits, in order;
  \<^item> \<open>F\<close> is the constant \<^verbatim>\<open>ItemModAverageScaleFactor\<close>;
  \<^item> \<open>idSize\<close> is the size in bytes of a value of the type \<^verbatim>\<open>ID\<close>.
\<close>

type_synonym getBucket =
  "StringHeapID \<Rightarrow> StringHeapID \<Rightarrow> StringHeapID \<Rightarrow> LeagueHeapID \<Rightarrow> error + bucket"
type_synonym decodeKey = "bytes \<Rightarrow> error + uint16 list"
type_synonym forEachID = "bytes \<Rightarrow> ID list"

definition removeCursor :: "indexQueryContext \<Rightarrow> nat \<Rightarrow> panic + indexQueryContext" where
  "removeCursor cx index =
     (if index < length (cursors cx)
      then Inr (cx\<lparr>cursors := (cursors cx)[index := None],
                   validCursors := validCursors cx - 1\<rparr>)
      else Inl IndexOutOfRange)"

definition NewIndexQuery ::
  "uint16 \<Rightarrow> StringHeapID \<Rightarrow> StringHeapID \<Rightarrow> StringHeapID list \<Rightarrow> uint16 list \<Rightarrow>
   LeagueHeapID \<Rightarrow> int \<Rightarrow> IndexQuery" where
  "NewIndexQuery F rt rf ms mins lg maxD =
     \<lparr>rootType = rt, rootFlavor = rf, mods = ms,
      minModValues = map (\<lambda>minValue. minValue * F) mins,
      league = lg, maxDesired = maxD, ctx = None\<rparr>"

text \<open>The loop of \<^verbatim>\<open>initContext\<close> that opens one cursor per mod, in order.\<close>

fun open_cursors :: "getBucket \<Rightarrow> IndexQuery \<Rightarrow> StringHeapID list \<Rightarrow> error + cursor option list" where
  "open_cursors gb q [] = Inr []"
| "open_cursors gb q (m # ms) =
     (case gb (rootType q) (rootFlavor q) m (league q) of
        Inl err \<Rightarrow> Inl (ErrorMsg ''faield to get item mod index bucket'')
      | Inr itemModBucket \<Rightarrow>
          (case open_cursors gb q ms of
             Inl e \<Rightarrow> Inl e
           | Inr cs \<Rightarrow> Inr (Some (Cursor itemModBucket) # cs)))"

text \<open>
  \<^verbatim>\<open>make([]ID, 0, cap)\<close> panics with \<^verbatim>\<open>makeslice: cap out of range\<close> when the
  capacity is negative or the slice would need more than \<^verbatim>\<open>maxAlloc\<close> bytes
  (\<open>2 ^ 48\<close> on the 64-bit run-time system). The declaration of the fixed-width type
  \<^verbatim>\<open>ID\<close> is outside the engine, so the size of an ID in bytes is the parameter
  \<open>idSize\<close>. A capacity that passes the check is taken to be allocated: running out of
  memory is not modelled.
\<close>

definition maxAlloc :: int where
  "maxAlloc = 2 ^ 48"

definition makeslice_cap_out_of_range :: "nat \<Rightarrow> int \<Rightarrow> bool" where
  "makeslice_cap_out_of_range idSize cap = (cap < 0 \<or> int idSize * cap > maxAlloc)"

text \<open>
  \<^verbatim>\<open>initContext\<close> returns its error and the query, whose context is set only on
  success.
\<close>

definition initContext ::
  "nat \<Rightarrow> getBucket \<Rightarrow> IndexQuery \<Rightarrow> panic + (error option \<times> IndexQuery)" where
  "initContext idSize gb q =
     (case open_cursors gb q (mods q) of
        Inl e \<Rightarrow> Inr (Some e, q)
      | Inr cs \<Rightarrow>
          if makeslice_cap_out_of_range idSize (maxDesired q) then Inl MakesliceCapOutOfRange
          else Inr (None, q\<lparr>ctx := Some \<lparr>validCursors = int (length cs), cursors = cs,
                                         set_ids = Map.empty, result = []\<rparr>\<rparr>))"

definition registerID :: "IndexQuery \<Rightarrow> indexQueryContext \<Rightarrow> ID \<Rightarrow> indexQueryContext" where
  "registerID q cx ident =
     (let shared = (case set_ids cx ident of None \<Rightarrow> 0 | Some s \<Rightarrow> s) + 1;
          cx1 = cx\<lparr>set_ids := (set_ids cx)(ident \<mapsto> shared)\<rparr>
      in if shared \<ge> int (length (mods q))
         then cx1\<lparr>result := result cx1 @ [ident], set_ids := (set_ids cx1)(ident := None)\<rparr>
         else cx1)"

text \<open>
  \<^verbatim>\<open>checkPair\<close> returns \<^verbatim>\<open>(idCount, err)\<close>; the local \<^verbatim>\<open>idCount\<close> is declared and
  never assigned, so it is \<open>0\<close> on every path.
\<close>

definition checkPair ::
  "decodeKey \<Rightarrow> forEachID \<Rightarrow> IndexQuery \<Rightarrow> indexQueryContext \<Rightarrow> bytes \<Rightarrow> bytes \<Rightarrow> nat \<Rightarrow>
   panic + ((int \<times> error option) \<times> indexQueryContext)" where
  "checkPair dk fe q cx k v modIndex =
     (case dk k of
        Inl err \<Rightarrow> Inr ((0, Some (Wrap err ''failed to decode mod index key'')), cx)
      | Inr values \<Rightarrow>
          if length values = 0
          then Inr ((0, Some (ErrorMsg ''decoded item mod index key to no values'')), cx)
          else if modIndex \<ge> length (minModValues q) then Inl IndexOutOfRange
          else
            let valid = (values ! 0 \<ge> minModValues q ! modIndex);
                idCount = 0
            in if valid then Inr ((idCount, None), foldl (registerID q) cx (fe v))
               else (case removeCursor cx modIndex of
                       Inl p \<Rightarrow> Inl p
                     | Inr cx' \<Rightarrow> Inr ((idCount, None), cx')))"

text \<open>
  The inner loop of \<^verbatim>\<open>stride\<close> on the cursor \<open>c\<close> of slot \<open>i\<close>. The cursor is a
  pointer shared with the slot, so each \<^verbatim>\<open>Prev()\<close> is written back to the slot.
\<close>

function stride_cursor ::
  "decodeKey \<Rightarrow> forEachID \<Rightarrow> IndexQuery \<Rightarrow> indexQueryContext \<Rightarrow> nat \<Rightarrow> cursor \<Rightarrow> int \<Rightarrow>
   panic + (error option \<times> indexQueryContext)" where
  "stride_cursor dk fe q cx i c index =
     (if index < LookupItemsMultiModStrideLength then
        (case cursor_Prev c of
           ((k, v), c') \<Rightarrow>
             let cx1 = cx\<lparr>cursors := (cursors cx)[i := Some c']\<rparr> in
             (case k of
                None \<Rightarrow>
                  (case v of
                     None \<Rightarrow> (case removeCursor cx1 i of
                                Inl p \<Rightarrow> Inl p
                              | Inr cx2 \<Rightarrow> Inr (None, cx2))
                   | Some _ \<Rightarrow> stride_cursor dk fe q cx1 i c' index)
              | Some kb \<Rightarrow>
                  (case checkPair dk fe q cx1 kb (slice v) i of
                     Inl p \<Rightarrow> Inl p
                   | Inr ((countFound, Some err), cx2) \<Rightarrow>
                       Inr (Some (Wrap err ''failed to check value pair''), cx2)
                   | Inr ((countFound, None), cx2) \<Rightarrow>
                       if countFound < 1 then Inr (None, cx2)
                       else stride_cursor dk fe q cx2 i c' (index + countFound))))
      else Inr (None, cx))"
  by pat_completeness auto
termination
proof (relation "measure (\<lambda>(dk, fe, q, cx, i, c, index). length c)", goal_cases)
  case 1
  show ?case by simp
next
  case (2 dk fe q cx i c)
  then show ?case by (cases c) auto
next
  case (3 dk fe q cx i c)
  then show ?case by (cases c) auto
qed

declare stride_cursor.simps [simp del]

text \<open>
  \<^verbatim>\<open>stride\<close>: the \<^verbatim>\<open>range\<close> loop over the slots. The slice never changes
  its length, so the loop runs over the indices fixed at its start and reads each slot
  when it reaches it; a \<^verbatim>\<open>nil\<close> slot is skipped.
\<close>

fun stride_range ::
  "decodeKey \<Rightarrow> forEachID \<Rightarrow> IndexQuery \<Rightarrow> indexQueryContext \<Rightarrow> nat list \<Rightarrow>
   panic + (error option \<times> indexQueryContext)" where
  "stride_range dk fe q cx [] = Inr (None, cx)"
| "stride_range dk fe q cx (i # is) =
     (case cursors cx ! i of
        None \<Rightarrow> stride_range dk fe q cx is
      | Some c \<Rightarrow>
          (case stride_cursor dk fe q cx i c 0 of
             Inl p \<Rightarrow> Inl p
           | Inr (Some err, cx') \<Rightarrow> Inr (Some err, cx')
           | Inr (None, cx') \<Rightarrow> stride_range dk fe q cx' is))"

definition stride ::
  "decodeKey \<Rightarrow> forEachID \<Rightarrow> IndexQuery \<Rightarrow> indexQueryContext \<Rightarrow>
   panic + (error option \<times> indexQueryContext)" where
  "stride dk fe q cx = stride_range dk fe q cx [0..<length (cursors cx)]"

text \<open>
  The first loop of \<^verbatim>\<open>Run\<close>: every cursor is set to its last pair, which goes
  through \<^verbatim>\<open>checkPair\<close> unless its key is \<^verbatim>\<open>nil\<close>. Calling \<^verbatim>\<open>Last()\<close> on a
  \<^verbatim>\<open>nil\<close> cursor dereferences it.
\<close>

fun prime_range ::
  "decodeKey \<Rightarrow> forEachID \<Rightarrow> IndexQuery \<Rightarrow> indexQueryContext \<Rightarrow> nat list \<Rightarrow>
   panic + (error option \<times> indexQueryContext)" where
  "prime_range dk fe q cx [] = Inr (None, cx)"
| "prime_range dk fe q cx (i # is) =
     (case cursors cx ! i of
        None \<Rightarrow> Inl NilDereference
      | Some c \<Rightarrow>
          (case cursor_Last c of
             ((k, v), c') \<Rightarrow>
               let cx1 = cx\<lparr>cursors := (cursors cx)[i := Some c']\<rparr> in
               (case k of
                  None \<Rightarrow> prime_range dk fe q cx1 is
                | Some kb \<Rightarrow>
                    (case checkPair dk fe q cx1 kb (slice v) i of
                       Inl p \<Rightarrow> Inl p
                     | Inr ((n, Some err), cx2) \<Rightarrow>
                         Inr (Some (Wrap err ''failed to check value in bucekt''), cx2)
                     | Inr ((n, None), cx2) \<Rightarrow> prime_range dk fe q cx2 is))))"

text \<open>
  The second loop of \<^verbatim>\<open>Run\<close>. Nothing in its text bounds the number of passes,
  so it is a partial function: \<open>None\<close> stands for a loop that never exits.
\<close>

partial_function (option) run_loop ::
  "decodeKey \<Rightarrow> forEachID \<Rightarrow> IndexQuery \<Rightarrow> indexQueryContext \<Rightarrow> int \<Rightarrow>
   (panic + (error option \<times> indexQueryContext)) option" where
  "run_loop dk fe q cx foundIDs =
     (if foundIDs < maxDesired q \<and> validCursors cx > 0 then
        (case stride dk fe q cx of
           Inl p \<Rightarrow> Some (Inl p)
         | Inr (Some err, cx') \<Rightarrow> Some (Inr (Some (Wrap err ''failed a stride''), cx'))
         | Inr (None, cx') \<Rightarrow> run_loop dk fe q cx' (int (length (result cx'))))
      else Some (Inr (None, cx)))"

declare run_loop.simps [code]

text \<open>
  The function that \<^verbatim>\<open>Run\<close> hands to \<^verbatim>\<open>db.View\<close>, from the point where the read
  transaction is open. It returns its error and the query as it leaves it.
\<close>

definition run_tx ::
  "nat \<Rightarrow> getBucket \<Rightarrow> decodeKey \<Rightarrow> forEachID \<Rightarrow> IndexQuery \<Rightarrow>
   (panic + (error option \<times> IndexQuery)) option" where
  "run_tx idSize gb dk fe q =
     (case initContext idSize gb q of
        Inl p \<Rightarrow> Some (Inl p)
      | Inr (Some err, q1) \<Rightarrow>
          Some (Inr (Some (ErrorMsg ''failed to initialize query context''), q1))
      | Inr (None, q1) \<Rightarrow>
          (case ctx q1 of
             None \<Rightarrow> Some (Inl NilDereference)
           | Some cx \<Rightarrow>
               (case prime_range dk fe q1 cx [0..<length (cursors cx)] of
                  Inl p \<Rightarrow> Some (Inl p)
                | Inr (Some err, cx1) \<Rightarrow> Some (Inr (Some err, q1\<lparr>ctx := Some cx1\<rparr>))
                | Inr (None, cx1) \<Rightarrow>
                    (case run_loop dk fe q1 cx1 0 of
                       None \<Rightarrow> None
                     | Some (Inl p) \<Rightarrow> Some (Inl p)
                     | Some (Inr (err, cx2)) \<Rightarrow> Some (Inr (err, q1\<lparr>ctx := Some cx2\<rparr>))))))"

text \<open>
  \<^verbatim>\<open>Run\<close> returns \<^verbatim>\<open>q.ctx.result, err\<close>: the context is dereferenced whatever
  the error is. The deferred \<^verbatim>\<open>clearContext\<close> resets \<^verbatim>\<open>q.ctx\<close> afterwards, so
  the caller keeps only the pair returned.
\<close>

definition Run ::
  "nat \<Rightarrow> getBucket \<Rightarrow> decodeKey \<Rightarrow> forEachID \<Rightarrow> IndexQuery \<Rightarrow>
   (panic + (ID list \<times> error option)) option" where
  "Run idSize gb dk fe q =
     (case run_tx idSize gb dk fe q of
        None \<Rightarrow> None
      | Some (Inl p) \<Rightarrow> Some (Inl p)
      | Some (Inr (err, q')) \<Rightarrow>
          (case ctx q' of
             None \<Rightarrow> Some (Inl NilDereference)
           | Some cx \<Rightarrow> Some (Inr (result cx, err))))"

section \<open>The search predicate (cmd package)\<close>

record ItemMod =
  Template :: string
  Values :: "uint16 list"

record MultiModSearch =
  MaxDesired :: int
  RootType :: string
  RootFlavor :: string
  League :: string
  Mods :: "string list"
  MinValues :: "uint16 list"

text \<open>
  The map \<^verbatim>\<open>required\<close> is filled in the order of \<^verbatim>\<open>Mods\<close>; a mod named twice
  keeps its last minimum.
\<close>

fun required_map :: "string list \<Rightarrow> uint16 list \<Rightarrow> (string \<rightharpoonup> uint16) \<Rightarrow> (string \<rightharpoonup> uint16)" where
  "required_map (m # ms) (v # vs) required = required_map ms vs (required(m \<mapsto> v))"
| "required_map _ _ required = required"

text \<open>
  The loop over the mods of one item; \<^verbatim>\<open>mod.Values[0]\<close> panics on a mod without
  values.
\<close>

fun count_satisfied :: "(string \<rightharpoonup> uint16) \<Rightarrow> ItemMod list \<Rightarrow> int \<Rightarrow> panic + int" where
  "count_satisfied required [] modsSatisfied = Inr modsSatisfied"
| "count_satisfied required (m # ms) modsSatisfied =
     (case required (Template m) of
        None \<Rightarrow> count_satisfied required ms modsSatisfied
      | Some minV \<Rightarrow>
          (case Values m of
             [] \<Rightarrow> Inl IndexOutOfRange
           | v0 # _ \<Rightarrow>
               if minV \<le> v0 then count_satisfied required ms (modsSatisfied + 1)
               else count_satisfied required ms modsSatisfied))"

text \<open>
  The loop over the items. \<open>GetMods\<close> stands for \<^verbatim>\<open>stash.Item.GetMods\<close> of the
  stash package, a parameter here.
\<close>

fun satisfies_items ::
  "('item \<Rightarrow> ItemMod list) \<Rightarrow> (string \<rightharpoonup> uint16) \<Rightarrow> int \<Rightarrow> 'item list \<Rightarrow> panic + bool" where
  "satisfies_items GetMods required requiredSatisfiedMods [] = Inr True"
| "satisfies_items GetMods required requiredSatisfiedMods (item # items) =
     (case count_satisfied required (GetMods item) 0 of
        Inl p \<Rightarrow> Inl p
      | Inr modsSatisfied \<Rightarrow>
          if modsSatisfied < requiredSatisfiedMods then Inr False
          else satisfies_items GetMods required requiredSatisfiedMods items)"

definition Satisfies :: "('item \<Rightarrow> ItemMod list) \<Rightarrow> MultiModSearch \<Rightarrow> 'item list \<Rightarrow> panic + bool" where
  "Satisfies GetMods search res =
     (if length (Mods search) \<noteq> length (MinValues search)
      then Inl (ExplicitPanic ''invalid MultiModSearch, mismatched lengths of Mods to MinValues'')
      else satisfies_items GetMods (required_map (Mods search) (MinValues search) Map.empty)
             (int (length (Mods search))) res)"

section \<open>Notions used to state the properties\<close>

text \<open>
  Modelled from the spec: \<^verbatim>\<open>getItemModIndexBucketRO\<close> belongs to the index layout,
  outside the query engine. Under a read transaction, the bucket of a tuple (root type, flavor, mod, league)
  is missing, cannot be opened, or is found. A missing bucket gives no candidates for its
  mod: an already-exhausted cursor, which is the cursor of the empty bucket. A bucket that
  cannot be opened gives the error.
\<close>

datatype lookup = NotFound | OpenError error | Found bucket

type_synonym tx = "StringHeapID \<Rightarrow> StringHeapID \<Rightarrow> StringHeapID \<Rightarrow> LeagueHeapID \<Rightarrow> lookup"

definition getItemModIndexBucketRO :: "tx \<Rightarrow> getBucket" where
  "getItemModIndexBucketRO t rt rf m lg =
     (case t rt rf m lg of
        NotFound \<Rightarrow> Inr []
      | OpenError err \<Rightarrow> Inl err
      | Found b \<Rightarrow> Inr b)"

text \<open>
  The invariant of the context that \<^verbatim>\<open>validCursors\<close> counts the slots that are not
  \<^verbatim>\<open>nil\<close>, and the work left to the cursors: one unit for each valid slot and one
  for each pair its cursor has not yielded.
\<close>

definition cursors_consistent :: "indexQueryContext \<Rightarrow> bool" where
  "cursors_consistent cx =
     (validCursors cx = int (length (filter (\<lambda>c. c \<noteq> None) (cursors cx))))"

definition remaining_work :: "indexQueryContext \<Rightarrow> nat" where
  "remaining_work cx =
     sum_list (map (\<lambda>c. case c of None \<Rightarrow> 0 | Some l \<Rightarrow> Suc (length l)) (cursors cx))"

text \<open>
  The IDs packed in a bucket, in the order of its pairs; the count the accumulator keeps
  for an ID; the number of times the cursors can still hand an ID to \<^verbatim>\<open>registerID\<close>;
  and the invariant of the accumulator, with \<open>extra\<close> the IDs of the entry at hand that
  are still to be registered: the result has no duplicates, an ID in the result is never
  handed over again, and the count of an ID and its remaining occurrences together do
  not exceed the number of mods.
\<close>

fun pair_ids :: "forEachID \<Rightarrow> pair \<Rightarrow> ID list" where
  "pair_ids fe (NestedBucket w) = []"
| "pair_ids fe (KeyValue k v) = fe v"

definition bucket_ids :: "forEachID \<Rightarrow> pair list \<Rightarrow> ID list" where
  "bucket_ids fe b = concat (map (pair_ids fe) b)"

definition counted :: "indexQueryContext \<Rightarrow> ID \<Rightarrow> int" where
  "counted cx x = (case set_ids cx x of None \<Rightarrow> 0 | Some s \<Rightarrow> s)"

definition pending :: "forEachID \<Rightarrow> indexQueryContext \<Rightarrow> ID \<Rightarrow> nat" where
  "pending fe cx x =
     sum_list (map (\<lambda>c. case c of None \<Rightarrow> 0 | Some l \<Rightarrow> count_list (bucket_ids fe l) x)
                   (cursors cx))"

definition acc_inv :: "forEachID \<Rightarrow> nat \<Rightarrow> indexQueryContext \<Rightarrow> ID list \<Rightarrow> bool" where
  "acc_inv fe n cx extra =
     (distinct (result cx)
      \<and> (\<forall>x \<in> set (result cx). count_list extra x + pending fe cx x = 0)
      \<and> (\<forall>x. counted cx x + int (count_list extra x + pending fe cx x) \<le> int n))"

section \<open>Properties\<close>

lemmas run_defs = Run_def run_tx_def initContext_def makeslice_cap_out_of_range_def
  maxAlloc_def NewIndexQuery_def Cursor_def
  cursor_Last_def checkPair_def registerID_def stride_def removeCursor_def
  LookupItemsMultiModStrideLength_def stride_cursor.simps

subsection \<open>The steps of a stride\<close>

lemma registerID_cursors [simp]:
  "cursors (registerID q cx x) = cursors cx" "validCursors (registerID q cx x) = validCursors cx"
  by (simp_all add: registerID_def Let_def)

lemma foldl_registerID_cursors [simp]:
  "cursors (foldl (registerID q) cx xs) = cursors cx"
  "validCursors (foldl (registerID q) cx xs) = validCursors cx"
  by (induction xs arbitrary: cx) simp_all

lemma checkPair_count: "checkPair dk fe q cx k v i = Inr ((n, e), cx') \<Longrightarrow> n = 0"
  by (auto simp: checkPair_def Let_def split: sum.splits if_splits)

lemma checkPair_cases:
  assumes "checkPair dk fe q cx k v i = Inr ((n, e), cx')"
  shows "(e \<noteq> None \<and> cx' = cx)
       \<or> (e = None \<and> cx' = foldl (registerID q) cx (fe v))
       \<or> (e = None \<and> i < length (cursors cx)
            \<and> cx' = cx\<lparr>cursors := (cursors cx)[i := None], validCursors := validCursors cx - 1\<rparr>)"
  using assms
  by (auto simp: checkPair_def Let_def removeCursor_def split: sum.splits if_splits)

lemma stride_cursor_Nil:
  "stride_cursor dk fe q cx i [] index =
     (if index < LookupItemsMultiModStrideLength
      then map_sum id (Pair None) (removeCursor (cx\<lparr>cursors := (cursors cx)[i := Some []]\<rparr>) i)
      else Inr (None, cx))"
  by (subst stride_cursor.simps) (simp split: sum.splits)

lemma stride_cursor_Nested:
  "stride_cursor dk fe q cx i (NestedBucket w # c) index =
     (if index < LookupItemsMultiModStrideLength
      then stride_cursor dk fe q (cx\<lparr>cursors := (cursors cx)[i := Some c]\<rparr>) i c index
      else Inr (None, cx))"
  by (subst stride_cursor.simps) simp

lemma stride_cursor_KeyValue:
  "stride_cursor dk fe q cx i (KeyValue k v # c) index =
     (if index < LookupItemsMultiModStrideLength
      then (case checkPair dk fe q (cx\<lparr>cursors := (cursors cx)[i := Some c]\<rparr>) k v i of
              Inl p \<Rightarrow> Inl p
            | Inr ((n, Some err), cx2) \<Rightarrow> Inr (Some (Wrap err ''failed to check value pair''), cx2)
            | Inr ((n, None), cx2) \<Rightarrow> Inr (None, cx2))
      else Inr (None, cx))"
  by (subst stride_cursor.simps) (auto split: sum.splits option.splits dest: checkPair_count)


lemma length_filter_update:
  "i < length xs \<Longrightarrow>
   length (filter P (xs[i := x])) + (if P (xs ! i) then 1 else 0)
     = length (filter P xs) + (if P x then 1 else 0)"
proof (induction xs arbitrary: i)
  case Nil
  then show ?case by simp
next
  case (Cons a xs)
  then show ?case by (cases i) auto
qed

lemma sum_list_map_update:
  fixes f :: "'a \<Rightarrow> nat"
  shows "i < length xs \<Longrightarrow>
   sum_list (map f (xs[i := x])) + f (xs ! i) = sum_list (map f xs) + f x"
proof (induction xs arbitrary: i)
  case Nil
  then show ?case by simp
next
  case (Cons a xs)
  then show ?case by (cases i) auto
qed

lemma stride_cursor_step:
  assumes "stride_cursor dk fe q cx i c index = Inr (e, cx')"
    and "i < length (cursors cx)"
    and "index < LookupItemsMultiModStrideLength"
  shows "\<exists>x. cursors cx' = (cursors cx)[i := x]
           \<and> validCursors cx' = validCursors cx - (if x = None then 1 else 0)
           \<and> (\<forall>c''. x = Some c'' \<longrightarrow> length c'' < length c)"
  using assms(1,2)
proof (induction c arbitrary: cx)
  case Nil
  then show ?case
    using assms(3) by (auto simp: stride_cursor_Nil removeCursor_def split: if_splits)
next
  case (Cons p c)
  let ?cx1 = "cx\<lparr>cursors := (cursors cx)[i := Some c]\<rparr>"
  show ?case
  proof (cases p)
    case (NestedBucket w)
    with Cons.prems assms(3) have "stride_cursor dk fe q ?cx1 i c index = Inr (e, cx')"
      by (simp add: stride_cursor_Nested)
    from Cons.IH [OF this] Cons.prems(2) obtain x where
      "cursors cx' = (cursors ?cx1)[i := x]"
      "validCursors cx' = validCursors ?cx1 - (if x = None then 1 else 0)"
      "\<forall>c''. x = Some c'' \<longrightarrow> length c'' < length c"
      by auto
    then show ?thesis
      by (intro exI [of _ x]) auto
  next
    case (KeyValue k v)
    with Cons.prems assms(3) obtain n e0 where
      cp: "checkPair dk fe q ?cx1 k v i = Inr ((n, e0), cx')"
      by (auto simp: stride_cursor_KeyValue split: sum.splits option.splits)
    from checkPair_cases [OF cp] Cons.prems(2) show ?thesis
      by (auto intro: exI [of _ "Some c"] exI [of _ None])
  qed
qed

lemma stride_cursor_progress:
  assumes "stride_cursor dk fe q cx i c 0 = Inr (e, cx')"
    and "i < length (cursors cx)" and "cursors cx ! i = Some c"
    and "cursors_consistent cx"
  shows "cursors_consistent cx'" and "remaining_work cx' < remaining_work cx"
    and "length (cursors cx') = length (cursors cx)"
    and "\<forall>j. j \<noteq> i \<longrightarrow> cursors cx' ! j = cursors cx ! j"
proof -
  from stride_cursor_step [OF assms(1,2)] obtain x where
    x: "cursors cx' = (cursors cx)[i := x]"
       "validCursors cx' = validCursors cx - (if x = None then 1 else 0)"
       "\<forall>c''. x = Some c'' \<longrightarrow> length c'' < length c"
    by (auto simp: LookupItemsMultiModStrideLength_def)
  from length_filter_update [OF assms(2), of "\<lambda>c. c \<noteq> None" x] assms(3,4) x(1,2)
  show "cursors_consistent cx'"
    by (auto simp: cursors_consistent_def split: if_splits)
  from sum_list_map_update [OF assms(2),
      of "\<lambda>c. case c of None \<Rightarrow> 0 | Some l \<Rightarrow> Suc (length l)" x] assms(3) x(1,3)
  show "remaining_work cx' < remaining_work cx"
    by (cases x) (auto simp: remaining_work_def)
  from x(1) show "length (cursors cx') = length (cursors cx)" by simp
  from x(1) show "\<forall>j. j \<noteq> i \<longrightarrow> cursors cx' ! j = cursors cx ! j" by simp
qed

lemma stride_range_progress:
  assumes "stride_range dk fe q cx js = Inr (e, cx')"
    and "\<forall>j \<in> set js. j < length (cursors cx)"
    and "cursors_consistent cx"
  shows "cursors_consistent cx' \<and> length (cursors cx') = length (cursors cx)
       \<and> remaining_work cx' \<le> remaining_work cx
       \<and> (e = None \<and> (\<exists>j \<in> set js. cursors cx ! j \<noteq> None)
            \<longrightarrow> remaining_work cx' < remaining_work cx)
       \<and> (\<forall>j. cursors cx ! j = None \<longrightarrow> cursors cx' ! j = None)"
  using assms
proof (induction js arbitrary: cx)
  case Nil
  then show ?case by simp
next
  case (Cons i js)
  show ?case
  proof (cases "cursors cx ! i")
    case None
    with Cons.prems have "stride_range dk fe q cx js = Inr (e, cx')" by simp
    from Cons.IH [OF this] Cons.prems(2,3) None show ?thesis by auto
  next
    case (Some c)
    from Cons.prems(2) have i: "i < length (cursors cx)" by simp
    from Cons.prems(1) Some obtain e1 cx1 where
      sc: "stride_cursor dk fe q cx i c 0 = Inr (e1, cx1)"
      by (auto split: sum.splits)
    note p = stride_cursor_progress [OF sc i Some Cons.prems(3)]
    show ?thesis
    proof (cases e1)
      case None
      with Cons.prems(1) Some sc have "stride_range dk fe q cx1 js = Inr (e, cx')" by simp
      from Cons.IH [OF this] Cons.prems(2) p Some show ?thesis
        by (auto simp: nth_list_update) (metis option.distinct(1))+
    next
      case (Some err)
      with Cons.prems(1) \<open>cursors cx ! i = Some c\<close> sc have "cx' = cx1" "e = Some err" by simp_all
      with p \<open>cursors cx ! i = Some c\<close> show ?thesis by auto (metis option.distinct(1))
    qed
  qed
qed

lemma stride_progress:
  assumes "stride dk fe q cx = Inr (e, cx')" and "cursors_consistent cx"
  shows "cursors_consistent cx'" and "length (cursors cx') = length (cursors cx)"
    and "remaining_work cx' \<le> remaining_work cx"
    and "e = None \<Longrightarrow> 0 < validCursors cx \<Longrightarrow> remaining_work cx' < remaining_work cx"
    and "\<And>j. cursors cx ! j = None \<Longrightarrow> cursors cx' ! j = None"
proof -
  from assms(1) have r: "stride_range dk fe q cx [0..<length (cursors cx)] = Inr (e, cx')"
    by (simp add: stride_def)
  have b: "\<forall>j \<in> set [0..<length (cursors cx)]. j < length (cursors cx)" by simp
  note p = stride_range_progress [OF r b assms(2)]
  from p show "cursors_consistent cx'" "length (cursors cx') = length (cursors cx)"
    "remaining_work cx' \<le> remaining_work cx" by simp_all
  from p show "\<And>j. cursors cx ! j = None \<Longrightarrow> cursors cx' ! j = None" by simp
  show "remaining_work cx' < remaining_work cx" if "e = None" "0 < validCursors cx"
  proof -
    from that(2) assms(2) have "filter (\<lambda>c. c \<noteq> None) (cursors cx) \<noteq> []"
      by (auto simp: cursors_consistent_def)
    then obtain c where "c \<in> set (cursors cx)" "c \<noteq> None"
      by (auto simp: filter_empty_conv)
    then obtain j where "j < length (cursors cx)" "cursors cx ! j \<noteq> None"
      by (auto simp: in_set_conv_nth)
    then have "\<exists>j \<in> set [0..<length (cursors cx)]. cursors cx ! j \<noteq> None" by auto
    with p that(1) show ?thesis by blast
  qed
qed

lemma run_loop_terminates:
  "cursors_consistent cx \<Longrightarrow> \<exists>r. run_loop dk fe q cx foundIDs = Some r"
proof (induction "remaining_work cx" arbitrary: cx foundIDs rule: less_induct)
  case less
  show ?case
  proof (cases "foundIDs < maxDesired q \<and> validCursors cx > 0")
    case False
    then show ?thesis by (subst run_loop.simps) auto
  next
    case True
    show ?thesis
    proof (cases "stride dk fe q cx")
      case (Inl p)
      with True show ?thesis by (subst run_loop.simps) simp
    next
      case (Inr r)
      obtain e cx' where r: "r = (e, cx')" by (cases r)
      show ?thesis
      proof (cases e)
        case (Some err)
        with True Inr r show ?thesis by (subst run_loop.simps) simp
      next
        case None
        from Inr r None have s: "stride dk fe q cx = Inr (None, cx')" by simp
        from stride_progress(1) [OF s less.prems] stride_progress(4) [OF s less.prems] True
        have "cursors_consistent cx'" "remaining_work cx' < remaining_work cx" by simp_all
        from less.hyps [OF this(2,1)] obtain r' where
          "run_loop dk fe q cx' (int (length (result cx'))) = Some r'" by blast
        with True s show ?thesis by (subst run_loop.simps) simp
      qed
    qed
  qed
qed

text \<open>An invariant of the stride passes holds when the loop exits.\<close>

lemma run_loop_invariant:
  assumes "run_loop dk fe q cx foundIDs = Some (Inr (e, cx'))"
    and "cursors_consistent cx" and "P cx"
    and step: "\<And>cx e cx'. cursors_consistent cx \<Longrightarrow> P cx \<Longrightarrow> stride dk fe q cx = Inr (e, cx') \<Longrightarrow> P cx'"
  shows "P cx'"
  using assms(1-3)
proof (induction "remaining_work cx" arbitrary: cx foundIDs rule: less_induct)
  case less
  show ?case
  proof (cases "foundIDs < maxDesired q \<and> validCursors cx > 0")
    case False
    with less.prems(1) have "cx' = cx" by (subst (asm) run_loop.simps) auto
    with less.prems(3) show ?thesis by simp
  next
    case True
    show ?thesis
    proof (cases "stride dk fe q cx")
      case (Inl p)
      with True less.prems(1) show ?thesis by (subst (asm) run_loop.simps) simp
    next
      case (Inr r)
      obtain e1 cx1 where r: "r = (e1, cx1)" by (cases r)
      with Inr have s: "stride dk fe q cx = Inr (e1, cx1)" by simp
      note P1 = step [OF less.prems(2,3) s]
      show ?thesis
      proof (cases e1)
        case (Some err)
        with True s less.prems(1) have "cx' = cx1" by (subst (asm) run_loop.simps) simp
        with P1 show ?thesis by simp
      next
        case None
        with s stride_progress(1) [OF s less.prems(2)] stride_progress(4) [OF s less.prems(2)] True
        have c: "cursors_consistent cx1" "remaining_work cx1 < remaining_work cx" by simp_all
        from True s None less.prems(1)
        have "run_loop dk fe q cx1 (int (length (result cx1))) = Some (Inr (e, cx'))"
          by (subst (asm) run_loop.simps) simp
        from less.hyps [OF c(2) this c(1) P1] show ?thesis .
      qed
    qed
  qed
qed

lemma cursor_Last_cases:
  "cursor_Last c = ((k, v), c') \<Longrightarrow>
     (c = [] \<and> k = None \<and> v = None \<and> c' = [])
   \<or> (\<exists>w. c = NestedBucket w # c' \<and> k = None \<and> v = Some w)
   \<or> (\<exists>kb w. c = KeyValue kb w # c' \<and> k = Some kb \<and> v = Some w)"
  by (cases c; cases "hd c") (auto simp: cursor_Last_def)

lemma prime_range_consistent:
  assumes "prime_range dk fe q cx js = Inr (e, cx')"
    and "\<forall>j \<in> set js. j < length (cursors cx)"
    and "cursors_consistent cx"
  shows "cursors_consistent cx' \<and> length (cursors cx') = length (cursors cx)"
  using assms
proof (induction js arbitrary: cx)
  case Nil
  then show ?case by simp
next
  case (Cons i js)
  from Cons.prems(1) obtain c where c: "cursors cx ! i = Some c"
    by (cases "cursors cx ! i") auto
  obtain k v c' where l: "cursor_Last c = ((k, v), c')"
    by (metis surj_pair)
  let ?cx1 = "cx\<lparr>cursors := (cursors cx)[i := Some c']\<rparr>"
  from Cons.prems(2) have i: "i < length (cursors cx)" by simp
  from length_filter_update [OF i, of "\<lambda>c. c \<noteq> None" "Some c'"] c Cons.prems(3)
  have c1: "cursors_consistent ?cx1" by (simp add: cursors_consistent_def)
  show ?case
  proof (cases k)
    case None
    with Cons.prems(1) c l have "prime_range dk fe q ?cx1 js = Inr (e, cx')" by simp
    from Cons.IH [OF this _ c1] Cons.prems(2) show ?thesis by simp
  next
    case (Some kb)
    with Cons.prems(1) c l obtain n e2 cx2 where
      cp: "checkPair dk fe q ?cx1 kb (slice v) i = Inr ((n, e2), cx2)"
      by (auto split: sum.splits)
    from length_filter_update [OF i, of "\<lambda>c. c \<noteq> None" None] c Cons.prems(3)
    have "int (length (filter (\<lambda>c. c \<noteq> None) ((cursors cx)[i := None]))) = validCursors cx - 1"
      by (simp add: cursors_consistent_def)
    with checkPair_cases [OF cp] c1
    have c2: "cursors_consistent cx2" "length (cursors cx2) = length (cursors cx)"
      by (auto simp: cursors_consistent_def)
    show ?thesis
    proof (cases e2)
      case None
      with Cons.prems(1) c l Some cp have "prime_range dk fe q cx2 js = Inr (e, cx')" by simp
      from Cons.IH [OF this _ c2(1)] Cons.prems(2) c2(2) show ?thesis by simp
    next
      case (Some err)
      with Cons.prems(1) c l \<open>k = Some kb\<close> cp have "cx' = cx2" by simp
      with c2 show ?thesis by simp
    qed
  qed
qed

lemma open_cursors_Some:
  "open_cursors gb q ms = Inr cs \<Longrightarrow> length cs = length ms \<and> (\<forall>c \<in> set cs. c \<noteq> None)"
  by (induction ms arbitrary: cs) (auto split: sum.splits)

lemma initContext_consistent:
  assumes "initContext idSize gb q = Inr (None, q1)"
  shows "\<exists>cx. ctx q1 = Some cx \<and> q1 = q\<lparr>ctx := Some cx\<rparr> \<and> cursors_consistent cx
           \<and> length (cursors cx) = length (mods q) \<and> (\<forall>c \<in> set (cursors cx). c \<noteq> None)
           \<and> set_ids cx = Map.empty \<and> result cx = []"
  using assms
  by (auto simp: initContext_def cursors_consistent_def split: sum.splits if_splits
      dest!: open_cursors_Some)

lemma Run_total: "\<exists>r. Run idSize gb dk fe q = Some r"
proof (cases "initContext idSize gb q")
  case (Inl p)
  then show ?thesis by (simp add: Run_def run_tx_def)
next
  case (Inr r)
  obtain e q1 where r: "r = (e, q1)" by (cases r)
  show ?thesis
  proof (cases e)
    case (Some err)
    with Inr r show ?thesis by (simp add: Run_def run_tx_def split: option.splits)
  next
    case None
    with Inr r have ic: "initContext idSize gb q = Inr (None, q1)" by simp
    from initContext_consistent [OF this] obtain cx where
      cx: "ctx q1 = Some cx" "cursors_consistent cx" by blast
    show ?thesis
    proof (cases "prime_range dk fe q1 cx [0..<length (cursors cx)]")
      case (Inl p)
      with ic cx show ?thesis by (simp add: Run_def run_tx_def)
    next
      case (Inr r2)
      obtain e2 cx1 where r2: "r2 = (e2, cx1)" by (cases r2)
      with Inr have pr: "prime_range dk fe q1 cx [0..<length (cursors cx)] = Inr (e2, cx1)"
        by simp
      from prime_range_consistent [OF pr _ cx(2)] have c1: "cursors_consistent cx1" by simp
      show ?thesis
      proof (cases e2)
        case (Some err)
        with ic cx pr show ?thesis by (simp add: Run_def run_tx_def)
      next
        case None
        from run_loop_terminates [OF c1] obtain r3 where
          "run_loop dk fe q1 cx1 0 = Some r3" by blast
        with ic cx pr None show ?thesis
          by (cases r3) (auto simp: Run_def run_tx_def)
      qed
    qed
  qed
qed

lemma stride_range_keeps_None:
  assumes "stride_range dk fe q cx js = Inr (e, cx')"
    and "\<forall>j \<in> set js. j < length (cursors cx)"
    and "cursors cx ! i = None"
  shows "cursors cx' ! i = None"
  using assms
proof (induction js arbitrary: cx)
  case Nil
  then show ?case by simp
next
  case (Cons j js)
  show ?case
  proof (cases "cursors cx ! j")
    case None
    with Cons show ?thesis by simp
  next
    case (Some c)
    with Cons.prems(1) obtain e1 cx1 where
      sc: "stride_cursor dk fe q cx j c 0 = Inr (e1, cx1)"
      by (auto split: sum.splits)
    from Cons.prems(2) have j: "j < length (cursors cx)" by simp
    from stride_cursor_step [OF sc j] obtain x where
      x: "cursors cx1 = (cursors cx)[j := x]"
      by (auto simp: LookupItemsMultiModStrideLength_def)
    from Some Cons.prems(3) have "i \<noteq> j" by auto
    with x Cons.prems(3) have n1: "cursors cx1 ! i = None" by simp
    show ?thesis
    proof (cases e1)
      case None
      with Cons.prems(1) Some sc have "stride_range dk fe q cx1 js = Inr (e, cx')" by simp
      from Cons.IH [OF this _ n1] Cons.prems(2) x show ?thesis by simp
    next
      case (Some err)
      with Cons.prems(1) \<open>cursors cx ! j = Some c\<close> sc have "cx' = cx1" by simp
      with n1 show ?thesis by simp
    qed
  qed
qed

lemma stride_keeps_None:
  "stride dk fe q cx = Inr (e, cx') \<Longrightarrow> cursors cx ! i = None \<Longrightarrow> cursors cx' ! i = None"
  unfolding stride_def by (rule stride_range_keeps_None) auto

lemma prime_range_other_slot:
  assumes "prime_range dk fe q cx js = Inr (e, cx')" and "i \<notin> set js"
  shows "cursors cx' ! i = cursors cx ! i"
  using assms
proof (induction js arbitrary: cx)
  case Nil
  then show ?case by simp
next
  case (Cons j js)
  from Cons.prems(1) obtain c where c: "cursors cx ! j = Some c"
    by (cases "cursors cx ! j") auto
  obtain k v c' where l: "cursor_Last c = ((k, v), c')"
    by (metis surj_pair)
  let ?cx1 = "cx\<lparr>cursors := (cursors cx)[j := Some c']\<rparr>"
  from Cons.prems(2) have ij: "i \<noteq> j" "i \<notin> set js" by auto
  show ?case
  proof (cases k)
    case None
    with Cons.prems(1) c l have "prime_range dk fe q ?cx1 js = Inr (e, cx')" by simp
    from Cons.IH [OF this ij(2)] ij(1) show ?thesis by simp
  next
    case (Some kb)
    with Cons.prems(1) c l obtain n e2 cx2 where
      cp: "checkPair dk fe q ?cx1 kb (slice v) j = Inr ((n, e2), cx2)"
      by (auto split: sum.splits)
    from checkPair_cases [OF cp] ij(1) have s2: "cursors cx2 ! i = cursors cx ! i"
      by auto
    show ?thesis
    proof (cases e2)
      case None
      with Cons.prems(1) c l Some cp have "prime_range dk fe q cx2 js = Inr (e, cx')" by simp
      from Cons.IH [OF this ij(2)] s2 show ?thesis by simp
    next
      case (Some err)
      with Cons.prems(1) c l \<open>k = Some kb\<close> cp have "cx' = cx2" by simp
      with s2 show ?thesis by simp
    qed
  qed
qed

lemma run_loop_keeps_None:
  assumes "run_loop dk fe q cx foundIDs = Some (Inr (e, cx'))"
    and "cursors_consistent cx" and "cursors cx ! i = None"
  shows "cursors cx' ! i = None"
  by (rule run_loop_invariant [OF assms(1,2), where P = "\<lambda>cx. cursors cx ! i = None"])
     (auto intro: assms(3) stride_keeps_None)

lemma open_cursors_no_error:
  assumes "\<forall>m \<in> set ms. \<forall>err. t (rootType q) (rootFlavor q) m (league q) \<noteq> OpenError err"
  shows "\<exists>cs. open_cursors (getItemModIndexBucketRO t) q ms = Inr cs \<and> length cs = length ms
           \<and> (\<forall>i < length ms. t (rootType q) (rootFlavor q) (ms ! i) (league q) = NotFound
                 \<longrightarrow> cs ! i = Some [])"
  using assms
proof (induction ms)
  case Nil
  then show ?case by simp
next
  case (Cons m ms)
  then obtain cs where cs: "open_cursors (getItemModIndexBucketRO t) q ms = Inr cs"
    "length cs = length ms"
    "\<forall>i < length ms. t (rootType q) (rootFlavor q) (ms ! i) (league q) = NotFound
        \<longrightarrow> cs ! i = Some []"
    by auto
  from Cons.prems obtain b where b: "getItemModIndexBucketRO t (rootType q) (rootFlavor q) m (league q) = Inr b"
    "t (rootType q) (rootFlavor q) m (league q) = NotFound \<longrightarrow> b = []"
    by (cases "t (rootType q) (rootFlavor q) m (league q)")
       (auto simp: getItemModIndexBucketRO_def)
  from cs b show ?case
    by (auto simp: nth_Cons Cursor_def split: nat.splits)
qed

lemma stride_range_exhausted:
  assumes "stride_range dk fe q cx js = Inr (None, cx')"
    and "\<forall>j \<in> set js. j < length (cursors cx)"
    and "i \<in> set js" and "cursors cx ! i = Some []"
  shows "cursors cx' ! i = None"
  using assms
proof (induction js arbitrary: cx)
  case Nil
  then show ?case by simp
next
  case (Cons j js)
  from Cons.prems(2) have j: "j < length (cursors cx)" by simp
  show ?case
  proof (cases "cursors cx ! j")
    case None
    with Cons.prems have "stride_range dk fe q cx js = Inr (None, cx')" "i \<in> set js"
      by auto
    from Cons.IH [OF this(1) _ this(2) Cons.prems(4)] Cons.prems(2) show ?thesis by simp
  next
    case (Some c)
    with Cons.prems(1) obtain cx1 where
      sc: "stride_cursor dk fe q cx j c 0 = Inr (None, cx1)"
      and r: "stride_range dk fe q cx1 js = Inr (None, cx')"
      by (auto split: sum.splits option.splits)
    from stride_cursor_step [OF sc j] obtain x where
      x: "cursors cx1 = (cursors cx)[j := x]"
      by (auto simp: LookupItemsMultiModStrideLength_def)
    have b: "\<forall>j \<in> set js. j < length (cursors cx1)" using x Cons.prems(2) by simp
    show ?thesis
    proof (cases "i = j")
      case True
      with Some Cons.prems(4) have "c = []" by simp
      with sc j have "cursors cx1 ! j = None"
        by (auto simp: stride_cursor_Nil removeCursor_def LookupItemsMultiModStrideLength_def)
      with True stride_range_keeps_None [OF r b] show ?thesis by simp
    next
      case False
      with Cons.prems(3,4) x have "i \<in> set js" "cursors cx1 ! i = Some []" by auto
      from Cons.IH [OF r b this] show ?thesis .
    qed
  qed
qed

lemma stride_exhausted:
  "stride dk fe q cx = Inr (None, cx') \<Longrightarrow> i < length (cursors cx) \<Longrightarrow>
   cursors cx ! i = Some [] \<Longrightarrow> cursors cx' ! i = None"
  unfolding stride_def by (rule stride_range_exhausted) auto

lemma prime_range_exhausted:
  assumes "\<forall>j \<in> set js. j < length (cursors cx) \<and> cursors cx ! j = Some []"
  shows "prime_range dk fe q cx js = Inr (None, cx)"
  using assms
proof (induction js)
  case Nil
  then show ?case by simp
next
  case (Cons j js)
  then have "cursors cx ! j = Some []" "(cursors cx)[j := Some []] = cursors cx"
    by (simp_all add: list_update_same_conv)
  with Cons show ?case by (simp add: cursor_Last_def)
qed

lemma stride_range_all_exhausted:
  assumes "\<forall>c \<in> set (cursors cx). c = None \<or> c = Some []"
    and "\<forall>j \<in> set js. j < length (cursors cx)"
  shows "\<exists>cx'. stride_range dk fe q cx js = Inr (None, cx') \<and> result cx' = result cx"
  using assms
proof (induction js arbitrary: cx)
  case Nil
  then show ?case by simp
next
  case (Cons j js)
  from Cons.prems(2) have j: "j < length (cursors cx)" by simp
  show ?case
  proof (cases "cursors cx ! j")
    case None
    with Cons show ?thesis by simp
  next
    case (Some c)
    with Cons.prems(1) j have c: "c = []" by (metis nth_mem option.distinct(1) option.inject)
    let ?cx1 = "cx\<lparr>cursors := (cursors cx)[j := None], validCursors := validCursors cx - 1\<rparr>"
    from j have sc: "stride_cursor dk fe q cx j [] 0 = Inr (None, ?cx1)"
      by (simp add: stride_cursor_Nil removeCursor_def LookupItemsMultiModStrideLength_def)
    have "set (cursors ?cx1) \<subseteq> insert None (set (cursors cx))"
      by (simp add: set_update_subset_insert)
    with Cons.prems(1) have a: "\<forall>c \<in> set (cursors ?cx1). c = None \<or> c = Some []" by auto
    from Cons.prems(2) have b: "\<forall>j \<in> set js. j < length (cursors ?cx1)" by simp
    from Cons.IH [OF a b] Some c sc show ?thesis by simp
  qed
qed

lemma run_loop_all_exhausted:
  assumes "\<forall>c \<in> set (cursors cx). c = None \<or> c = Some []" and "cursors_consistent cx"
  shows "\<exists>cx'. run_loop dk fe q cx foundIDs = Some (Inr (None, cx')) \<and> result cx' = result cx"
proof (cases "foundIDs < maxDesired q \<and> validCursors cx > 0")
  case False
  then show ?thesis by (subst run_loop.simps) auto
next
  case True
  from stride_range_all_exhausted [OF assms(1), of "[0..<length (cursors cx)]" dk fe q]
  obtain cx' where s: "stride dk fe q cx = Inr (None, cx')" and r: "result cx' = result cx"
    by (auto simp: stride_def)
  have "cursors cx' ! i = None" if "i < length (cursors cx)" for i
  proof (cases "cursors cx ! i")
    case None
    with s show ?thesis by (rule stride_keeps_None)
  next
    case (Some c)
    with assms(1) that have "cursors cx ! i = Some []"
      by (metis nth_mem option.distinct(1))
    with s that show ?thesis by (rule stride_exhausted)
  qed
  with stride_progress(2) [OF s assms(2)] have "\<forall>c \<in> set (cursors cx'). c = None"
    by (auto simp: in_set_conv_nth)
  then have "filter (\<lambda>c. c \<noteq> None) (cursors cx') = []"
    by (auto simp: filter_empty_conv)
  with stride_progress(1) [OF s assms(2)] have "validCursors cx' = 0"
    by (simp add: cursors_consistent_def)
  then have "run_loop dk fe q cx' (int (length (result cx'))) = Some (Inr (None, cx'))"
    by (subst run_loop.simps) simp
  with True s r show ?thesis by (subst run_loop.simps) simp
qed

lemma consistent_live:
  assumes "cursors_consistent cx" and "i < length (cursors cx)" and "cursors cx ! i \<noteq> None"
  shows "0 < validCursors cx"
proof -
  from assms(2,3) have "cursors cx ! i \<in> set (filter (\<lambda>c. c \<noteq> None) (cursors cx))" by simp
  then have "filter (\<lambda>c. c \<noteq> None) (cursors cx) \<noteq> []" by (metis empty_iff empty_set)
  with assms(1) show ?thesis by (simp add: cursors_consistent_def)
qed

lemma run_loop_first_pass:
  assumes "run_loop dk fe q cx f = Some (Inr (None, cx'))"
    and "cursors_consistent cx" and "f < maxDesired q" and "0 < validCursors cx"
    and "\<And>cx1. stride dk fe q cx = Inr (None, cx1) \<Longrightarrow> cursors cx1 ! i = None"
  shows "cursors cx' ! i = None"
proof (cases "stride dk fe q cx")
  case (Inl p)
  with assms(1,3,4) show ?thesis by (subst (asm) run_loop.simps) simp
next
  case (Inr r)
  obtain e cx1 where r: "r = (e, cx1)" by (cases r)
  show ?thesis
  proof (cases e)
    case (Some err)
    with Inr r assms(1,3,4) show ?thesis by (subst (asm) run_loop.simps) simp
  next
    case None
    with Inr r have s: "stride dk fe q cx = Inr (None, cx1)" by simp
    with assms(1,3,4)
    have rl: "run_loop dk fe q cx1 (int (length (result cx1))) = Some (Inr (None, cx'))"
      by (subst (asm) run_loop.simps) simp
    from run_loop_keeps_None [OF rl stride_progress(1) [OF s assms(2)] assms(5) [OF s]]
    show ?thesis .
  qed
qed

lemma open_cursors_missing:
  assumes "open_cursors (getItemModIndexBucketRO t) q ms = Inr cs"
    and "i < length ms"
    and "t (rootType q) (rootFlavor q) (ms ! i) (league q) = NotFound"
  shows "cs ! i = Some []"
  using assms
proof (induction ms arbitrary: cs i)
  case Nil
  then show ?case by simp
next
  case (Cons m ms)
  from Cons.prems(1) obtain b cs' where
    b: "getItemModIndexBucketRO t (rootType q) (rootFlavor q) m (league q) = Inr b"
    and o: "open_cursors (getItemModIndexBucketRO t) q ms = Inr cs'"
    and cs: "cs = Some (Cursor b) # cs'"
    by (auto split: sum.splits)
  show ?case
  proof (cases i)
    case 0
    with Cons.prems(3) b have "b = []" by (simp add: getItemModIndexBucketRO_def)
    with 0 cs show ?thesis by (simp add: Cursor_def)
  next
    case (Suc j)
    with Cons.prems(2,3) Cons.IH [OF o, of j] cs show ?thesis by simp
  qed
qed

lemma prime_range_keeps_exhausted:
  assumes "prime_range dk fe q cx js = Inr (e, cx')" and "cursors cx ! i = Some []"
  shows "cursors cx' ! i = Some []"
  using assms
proof (induction js arbitrary: cx)
  case Nil
  then show ?case by simp
next
  case (Cons j js)
  from Cons.prems(1) obtain c where c: "cursors cx ! j = Some c"
    by (cases "cursors cx ! j") auto
  obtain k v c' where l: "cursor_Last c = ((k, v), c')"
    by (metis surj_pair)
  let ?cx1 = "cx\<lparr>cursors := (cursors cx)[j := Some c']\<rparr>"
  have s1: "cursors ?cx1 ! i = Some []"
  proof (cases "i = j")
    case True
    with c Cons.prems(2) l have "c' = []" by (simp add: cursor_Last_def)
    with True Cons.prems(2) show ?thesis
      by (cases "j < length (cursors cx)") (simp_all add: list_update_beyond)
  next
    case False
    with Cons.prems(2) show ?thesis by simp
  qed
  show ?case
  proof (cases k)
    case None
    with Cons.prems(1) c l have "prime_range dk fe q ?cx1 js = Inr (e, cx')" by simp
    from Cons.IH [OF this s1] show ?thesis .
  next
    case (Some kb)
    with l c Cons.prems(2) have ij: "i \<noteq> j" by (auto simp: cursor_Last_def)
    from Some Cons.prems(1) c l obtain n e2 cx2 where
      cp: "checkPair dk fe q ?cx1 kb (slice v) j = Inr ((n, e2), cx2)"
      by (auto split: sum.splits)
    from checkPair_cases [OF cp] ij s1 have s2: "cursors cx2 ! i = Some []"
      by auto
    show ?thesis
    proof (cases e2)
      case None
      with Cons.prems(1) c l Some cp have "prime_range dk fe q cx2 js = Inr (e, cx')" by simp
      from Cons.IH [OF this s2] show ?thesis .
    next
      case (Some err)
      with Cons.prems(1) c l \<open>k = Some kb\<close> cp have "cx' = cx2" by simp
      with s2 show ?thesis by simp
    qed
  qed
qed

lemma run_tx_success:
  assumes "run_tx idSize gb dk fe q = Some (Inr (None, q'))"
  obtains cs cx1 cx2 where
    "open_cursors gb q (mods q) = Inr cs"
    "prime_range dk fe
       (q\<lparr>ctx := Some \<lparr>validCursors = int (length cs), cursors = cs,
                         set_ids = Map.empty, result = []\<rparr>\<rparr>)
       \<lparr>validCursors = int (length cs), cursors = cs, set_ids = Map.empty, result = []\<rparr>
       [0..<length cs] = Inr (None, cx1)"
    "run_loop dk fe
       (q\<lparr>ctx := Some \<lparr>validCursors = int (length cs), cursors = cs,
                         set_ids = Map.empty, result = []\<rparr>\<rparr>) cx1 0
       = Some (Inr (None, cx2))"
    "ctx q' = Some cx2"
  using assms
  by (auto simp: run_tx_def initContext_def split: sum.splits option.splits if_splits)

lemma stride_range_invalidates:
  assumes "stride_range dk fe q cx js = Inr (None, cx')"
    and "\<forall>j \<in> set js. j < length (cursors cx)"
    and "i \<in> set js" and "cursors cx ! i = Some c"
    and inv: "\<And>cx0 e cx1. i < length (cursors cx0) \<Longrightarrow>
          stride_cursor dk fe q cx0 i c 0 = Inr (e, cx1) \<Longrightarrow> cursors cx1 ! i = None"
  shows "cursors cx' ! i = None"
  using assms(1-4)
proof (induction js arbitrary: cx)
  case Nil
  then show ?case by simp
next
  case (Cons j js)
  from Cons.prems(2) have j: "j < length (cursors cx)" by simp
  show ?case
  proof (cases "cursors cx ! j")
    case None
    with Cons.prems have "stride_range dk fe q cx js = Inr (None, cx')" "i \<in> set js"
      by auto
    from Cons.IH [OF this(1) _ this(2) Cons.prems(4)] Cons.prems(2) show ?thesis by simp
  next
    case (Some d)
    with Cons.prems(1) obtain cx1 where
      sc: "stride_cursor dk fe q cx j d 0 = Inr (None, cx1)"
      and r: "stride_range dk fe q cx1 js = Inr (None, cx')"
      by (auto split: sum.splits option.splits)
    from stride_cursor_step [OF sc j] obtain x where
      x: "cursors cx1 = (cursors cx)[j := x]"
      by (auto simp: LookupItemsMultiModStrideLength_def)
    have b: "\<forall>j \<in> set js. j < length (cursors cx1)" using x Cons.prems(2) by simp
    show ?thesis
    proof (cases "i = j")
      case True
      with Some Cons.prems(4) have "d = c" by simp
      with sc j True inv [of cx None cx1] have "cursors cx1 ! i = None" by simp
      from stride_range_keeps_None [OF r b this] show ?thesis .
    next
      case False
      with Cons.prems(3,4) x have "i \<in> set js" "cursors cx1 ! i = Some c" by auto
      from Cons.IH [OF r b this] show ?thesis .
    qed
  qed
qed

lemma stride_cursor_below_minimum:
  assumes "dk k = Inr values" and "values \<noteq> []"
    and "i < length (minModValues q)" and "values ! 0 < minModValues q ! i"
    and "i < length (cursors cx)"
  shows "stride_cursor dk fe q cx i (map NestedBucket ws @ KeyValue k v # c') 0 =
           Inr (None, cx\<lparr>cursors := (cursors cx)[i := None],
                           validCursors := validCursors cx - 1\<rparr>)"
  using assms(5)
proof (induction ws arbitrary: cx)
  case Nil
  let ?cx1 = "cx\<lparr>cursors := (cursors cx)[i := Some c']\<rparr>"
  from assms(1-4) Nil have "checkPair dk fe q ?cx1 k v i =
      Inr ((0, None), ?cx1\<lparr>cursors := (cursors ?cx1)[i := None],
                            validCursors := validCursors ?cx1 - 1\<rparr>)"
    by (auto simp: checkPair_def removeCursor_def)
  then show ?case
    by (simp add: stride_cursor_KeyValue LookupItemsMultiModStrideLength_def)
next
  case (Cons w ws)
  let ?cx1 = "cx\<lparr>cursors := (cursors cx)[i := Some (map NestedBucket ws @ KeyValue k v # c')]\<rparr>"
  from Cons.prems have "i < length (cursors ?cx1)" by simp
  from Cons.IH [OF this] show ?case
    by (simp add: stride_cursor_Nested LookupItemsMultiModStrideLength_def)
qed

subsection \<open>The invariant of the accumulator\<close>

lemma pending_registerID [simp]: "pending fe (registerID q cx x) y = pending fe cx y"
  by (simp add: pending_def)

lemma registerID_promote:
  "int (length (mods q)) \<le> counted cx x + 1 \<Longrightarrow>
     result (registerID q cx x) = result cx @ [x] \<and> set_ids (registerID q cx x) = (set_ids cx)(x := None)"
  by (auto simp: registerID_def counted_def Let_def split: option.splits)

lemma registerID_keep:
  "counted cx x + 1 < int (length (mods q)) \<Longrightarrow>
     result (registerID q cx x) = result cx
   \<and> set_ids (registerID q cx x) = (set_ids cx)(x \<mapsto> counted cx x + 1)"
  by (auto simp: registerID_def counted_def Let_def split: option.splits)

lemma acc_invI:
  assumes "distinct (result cx)"
    and "\<And>y. y \<in> set (result cx) \<Longrightarrow> count_list extra y + pending fe cx y = 0"
    and "\<And>y. counted cx y + int (count_list extra y + pending fe cx y) \<le> int n"
  shows "acc_inv fe n cx extra"
  using assms by (simp add: acc_inv_def)

lemma acc_inv_distinct: "acc_inv fe n cx extra \<Longrightarrow> distinct (result cx)"
  by (simp add: acc_inv_def)

lemma acc_inv_done:
  "acc_inv fe n cx extra \<Longrightarrow> y \<in> set (result cx) \<Longrightarrow> count_list extra y + pending fe cx y = 0"
  by (simp add: acc_inv_def)

lemma acc_inv_bound:
  "acc_inv fe n cx extra \<Longrightarrow> counted cx y + int (count_list extra y + pending fe cx y) \<le> int n"
  by (simp add: acc_inv_def)

lemma acc_inv_registerID:
  assumes "acc_inv fe (length (mods q)) cx (x # L)"
  shows "acc_inv fe (length (mods q)) (registerID q cx x) L"
proof (cases "int (length (mods q)) \<le> counted cx x + 1")
  case True
  note r = registerID_promote [OF True]
  from acc_inv_bound [OF assms, of x] True
  have z: "count_list L x + pending fe cx x = 0" by simp
  from acc_inv_done [OF assms, of x] have nx: "x \<notin> set (result cx)" by auto
  show ?thesis
  proof (rule acc_invI)
    from acc_inv_distinct [OF assms] nx r show "distinct (result (registerID q cx x))" by simp
  next
    fix y
    assume "y \<in> set (result (registerID q cx x))"
    with r have "y = x \<or> y \<in> set (result cx)" by auto
    then show "count_list L y + pending fe (registerID q cx x) y = 0"
    proof
      assume "y = x"
      with z show ?thesis by simp
    next
      assume "y \<in> set (result cx)"
      from acc_inv_done [OF assms this] show ?thesis by (simp split: if_splits)
    qed
  next
    fix y
    show "counted (registerID q cx x) y + int (count_list L y + pending fe (registerID q cx x) y)
            \<le> int (length (mods q))"
    proof (cases "y = x")
      case True
      with z r show ?thesis by (simp add: counted_def)
    next
      case False
      with acc_inv_bound [OF assms, of y] r show ?thesis by (simp add: counted_def)
    qed
  qed
next
  case False
  then have lt: "counted cx x + 1 < int (length (mods q))" by simp
  note r = registerID_keep [OF lt]
  show ?thesis
  proof (rule acc_invI)
    from acc_inv_distinct [OF assms] r show "distinct (result (registerID q cx x))" by simp
  next
    fix y
    assume "y \<in> set (result (registerID q cx x))"
    with r have "y \<in> set (result cx)" by simp
    from acc_inv_done [OF assms this] show "count_list L y + pending fe (registerID q cx x) y = 0"
      by (simp split: if_splits)
  next
    fix y
    show "counted (registerID q cx x) y + int (count_list L y + pending fe (registerID q cx x) y)
            \<le> int (length (mods q))"
    proof (cases "y = x")
      case True
      with acc_inv_bound [OF assms, of x] r show ?thesis by (simp add: counted_def)
    next
      case False
      with acc_inv_bound [OF assms, of y] r show ?thesis by (simp add: counted_def)
    qed
  qed
qed

lemma acc_inv_foldl:
  "acc_inv fe (length (mods q)) cx L \<Longrightarrow> acc_inv fe (length (mods q)) (foldl (registerID q) cx L) []"
  by (induction L arbitrary: cx) (auto dest: acc_inv_registerID)

text \<open>Dropping work that is still pending keeps the invariant.\<close>

lemma acc_inv_less:
  assumes "acc_inv fe n cx extra"
    and "result cx' = result cx" and "set_ids cx' = set_ids cx"
    and "\<And>y. count_list extra' y + pending fe cx' y \<le> count_list extra y + pending fe cx y"
  shows "acc_inv fe n cx' extra'"
proof (rule acc_invI)
  from acc_inv_distinct [OF assms(1)] assms(2) show "distinct (result cx')" by simp
next
  fix y
  assume "y \<in> set (result cx')"
  with assms(2) have "y \<in> set (result cx)" by simp
  from acc_inv_done [OF assms(1) this] assms(4) [of y]
  show "count_list extra' y + pending fe cx' y = 0" by simp
next
  fix y
  from acc_inv_bound [OF assms(1), of y] assms(4) [of y] assms(3)
  show "counted cx' y + int (count_list extra' y + pending fe cx' y) \<le> int n"
    by (simp add: counted_def)
qed

lemma bucket_ids_simps [simp]:
  "bucket_ids fe [] = []" "bucket_ids fe (p # c) = pair_ids fe p @ bucket_ids fe c"
  by (simp_all add: bucket_ids_def)

lemma pending_update:
  assumes "i < length (cursors cx)" and "cursors cx ! i = Some (p # c)"
  shows "pending fe (cx\<lparr>cursors := (cursors cx)[i := Some c]\<rparr>) y + count_list (pair_ids fe p) y
           = pending fe cx y"
  using sum_list_map_update [OF assms(1),
      of "\<lambda>c. case c of None \<Rightarrow> 0 | Some l \<Rightarrow> count_list (bucket_ids fe l) y" "Some c"] assms(2)
  by (simp add: pending_def)

lemma pending_remove:
  assumes "i < length (cursors cx)"
  shows "pending fe (cx\<lparr>cursors := (cursors cx)[i := None], validCursors := v\<rparr>) y
           \<le> pending fe cx y"
  using sum_list_map_update [OF assms(1),
      of "\<lambda>c. case c of None \<Rightarrow> 0 | Some l \<Rightarrow> count_list (bucket_ids fe l) y" None]
  by (simp add: pending_def)

lemma acc_inv_checkPair:
  assumes "checkPair dk fe q cx k v i = Inr ((n, e), cx')"
    and "acc_inv fe (length (mods q)) cx (fe v)"
  shows "acc_inv fe (length (mods q)) cx' []"
proof -
  from checkPair_cases [OF assms(1)] consider
    "cx' = cx" | "cx' = foldl (registerID q) cx (fe v)"
    | "i < length (cursors cx)"
      "cx' = cx\<lparr>cursors := (cursors cx)[i := None], validCursors := validCursors cx - 1\<rparr>"
    by blast
  then show ?thesis
  proof cases
    case 1
    with assms(2) show ?thesis by (auto intro: acc_inv_less)
  next
    case 2
    with assms(2) show ?thesis by (simp add: acc_inv_foldl)
  next
    case 3
    show ?thesis
    proof (rule acc_inv_less [OF assms(2)])
      fix y
      from pending_remove [OF 3(1), of fe "validCursors cx - 1" y] 3(2)
      show "count_list [] y + pending fe cx' y \<le> count_list (fe v) y + pending fe cx y"
        by simp
    qed (simp_all add: 3(2))
  qed
qed

text \<open>Taking the pair \<open>p\<close> off the cursor of slot \<open>i\<close> moves its IDs to the ones at hand.\<close>

lemma acc_inv_take_pair:
  assumes "acc_inv fe n cx []" and "i < length (cursors cx)" and "cursors cx ! i = Some (p # c)"
  shows "acc_inv fe n (cx\<lparr>cursors := (cursors cx)[i := Some c]\<rparr>) (pair_ids fe p)"
proof (rule acc_inv_less [OF assms(1)])
  fix y
  from pending_update [OF assms(2,3), of fe y]
  show "count_list (pair_ids fe p) y + pending fe (cx\<lparr>cursors := (cursors cx)[i := Some c]\<rparr>) y
          \<le> count_list [] y + pending fe cx y"
    by simp
qed simp_all

lemma acc_inv_stride_cursor:
  assumes "stride_cursor dk fe q cx i c 0 = Inr (e, cx')"
    and "acc_inv fe (length (mods q)) cx []"
    and "i < length (cursors cx)" and "cursors cx ! i = Some c"
  shows "acc_inv fe (length (mods q)) cx' []"
  using assms
proof (induction c arbitrary: cx)
  case Nil
  then have "cx' = cx\<lparr>cursors := (cursors cx)[i := None], validCursors := validCursors cx - 1\<rparr>"
    by (auto simp: stride_cursor_Nil removeCursor_def LookupItemsMultiModStrideLength_def)
  moreover have "acc_inv fe (length (mods q))
      (cx\<lparr>cursors := (cursors cx)[i := None], validCursors := validCursors cx - 1\<rparr>) []"
  proof (rule acc_inv_less [OF Nil.prems(2)])
    fix y
    from pending_remove [OF Nil.prems(3), of fe "validCursors cx - 1" y]
    show "count_list [] y + pending fe
        (cx\<lparr>cursors := (cursors cx)[i := None], validCursors := validCursors cx - 1\<rparr>) y
          \<le> count_list [] y + pending fe cx y"
      by simp
  qed simp_all
  ultimately show ?case by simp
next
  case (Cons p c)
  let ?cx1 = "cx\<lparr>cursors := (cursors cx)[i := Some c]\<rparr>"
  note a1 = acc_inv_take_pair [OF Cons.prems(2,3,4)]
  show ?case
  proof (cases p)
    case (NestedBucket w)
    with Cons.prems(1) have s: "stride_cursor dk fe q ?cx1 i c 0 = Inr (e, cx')"
      by (simp add: stride_cursor_Nested LookupItemsMultiModStrideLength_def)
    from a1 NestedBucket have "acc_inv fe (length (mods q)) ?cx1 []" by simp
    from Cons.IH [OF s this] Cons.prems(3) show ?thesis by simp
  next
    case (KeyValue k v)
    with Cons.prems(1) obtain n e0 where
      cp: "checkPair dk fe q ?cx1 k v i = Inr ((n, e0), cx')"
      by (auto simp: stride_cursor_KeyValue LookupItemsMultiModStrideLength_def
          split: sum.splits option.splits)
    from a1 KeyValue have "acc_inv fe (length (mods q)) ?cx1 (fe v)" by simp
    from acc_inv_checkPair [OF cp this] show ?thesis .
  qed
qed

lemma acc_inv_stride_range:
  assumes "stride_range dk fe q cx js = Inr (e, cx')"
    and "acc_inv fe (length (mods q)) cx []"
    and "\<forall>j \<in> set js. j < length (cursors cx)"
  shows "acc_inv fe (length (mods q)) cx' []"
  using assms
proof (induction js arbitrary: cx)
  case Nil
  then show ?case by simp
next
  case (Cons i js)
  show ?case
  proof (cases "cursors cx ! i")
    case None
    with Cons show ?thesis by simp
  next
    case (Some c)
    from Cons.prems(3) have i: "i < length (cursors cx)" by simp
    from Cons.prems(1) Some obtain e1 cx1 where
      sc: "stride_cursor dk fe q cx i c 0 = Inr (e1, cx1)"
      by (auto split: sum.splits)
    note a1 = acc_inv_stride_cursor [OF sc Cons.prems(2) i Some]
    from stride_cursor_step [OF sc i] have l: "length (cursors cx1) = length (cursors cx)"
      by (auto simp: LookupItemsMultiModStrideLength_def)
    show ?thesis
    proof (cases e1)
      case None
      with Cons.prems(1) Some sc have "stride_range dk fe q cx1 js = Inr (e, cx')" by simp
      from Cons.IH [OF this a1] Cons.prems(3) l show ?thesis by simp
    next
      case (Some err)
      with Cons.prems(1) \<open>cursors cx ! i = Some c\<close> sc have "cx' = cx1" by simp
      with a1 show ?thesis by simp
    qed
  qed
qed

lemma acc_inv_stride:
  "stride dk fe q cx = Inr (e, cx') \<Longrightarrow> acc_inv fe (length (mods q)) cx [] \<Longrightarrow>
   acc_inv fe (length (mods q)) cx' []"
  unfolding stride_def by (rule acc_inv_stride_range) auto

lemma acc_inv_prime_range:
  assumes "prime_range dk fe q cx js = Inr (e, cx')"
    and "acc_inv fe (length (mods q)) cx []"
    and "\<forall>j \<in> set js. j < length (cursors cx)"
  shows "acc_inv fe (length (mods q)) cx' []"
  using assms
proof (induction js arbitrary: cx)
  case Nil
  then show ?case by simp
next
  case (Cons i js)
  from Cons.prems(1) obtain c where c: "cursors cx ! i = Some c"
    by (cases "cursors cx ! i") auto
  from Cons.prems(3) have i: "i < length (cursors cx)" by simp
  obtain k v c' where l: "cursor_Last c = ((k, v), c')"
    by (metis surj_pair)
  let ?cx1 = "cx\<lparr>cursors := (cursors cx)[i := Some c']\<rparr>"
  from cursor_Last_cases [OF l] consider
    (empty) "c = []" "k = None" "c' = []"
    | (nested) w where "c = NestedBucket w # c'" "k = None"
    | (kv) kb w where "c = KeyValue kb w # c'" "k = Some kb" "v = Some w"
    by blast
  then show ?case
  proof cases
    case empty
    with c i have "?cx1 = cx" by (simp add: list_update_same_conv)
    with Cons.prems(1) c l empty have "prime_range dk fe q cx js = Inr (e, cx')" by simp
    from Cons.IH [OF this Cons.prems(2)] Cons.prems(3) show ?thesis by simp
  next
    case nested
    with Cons.prems(1) c l have p: "prime_range dk fe q ?cx1 js = Inr (e, cx')" by simp
    from acc_inv_take_pair [OF Cons.prems(2) i, of "NestedBucket w" c'] c nested
    have "acc_inv fe (length (mods q)) ?cx1 []" by simp
    from Cons.IH [OF p this] Cons.prems(3) show ?thesis by simp
  next
    case kv
    with Cons.prems(1) c l obtain n e2 cx2 where
      cp: "checkPair dk fe q ?cx1 kb w i = Inr ((n, e2), cx2)"
      by (auto split: sum.splits)
    from acc_inv_take_pair [OF Cons.prems(2) i, of "KeyValue kb w" c'] c kv
    have "acc_inv fe (length (mods q)) ?cx1 (fe w)" by simp
    note a2 = acc_inv_checkPair [OF cp this]
    from checkPair_cases [OF cp] have l2: "length (cursors cx2) = length (cursors cx)"
      by auto
    show ?thesis
    proof (cases e2)
      case None
      with Cons.prems(1) c l kv cp have "prime_range dk fe q cx2 js = Inr (e, cx')" by simp
      from Cons.IH [OF this a2] Cons.prems(3) l2 show ?thesis by simp
    next
      case (Some err)
      with Cons.prems(1) c l kv cp have "cx' = cx2" by simp
      with a2 show ?thesis by simp
    qed
  qed
qed

lemma open_cursors_buckets:
  "open_cursors gb q ms = Inr cs \<Longrightarrow>
   \<forall>c \<in> set cs. \<exists>m \<in> set ms. \<exists>b. gb (rootType q) (rootFlavor q) m (league q) = Inr b
      \<and> c = Some (Cursor b)"
proof (induction ms arbitrary: cs)
  case Nil
  then show ?case by simp
next
  case (Cons m ms)
  from Cons.prems obtain b cs' where
    b: "gb (rootType q) (rootFlavor q) m (league q) = Inr b"
    and o: "open_cursors gb q ms = Inr cs'" and cs: "cs = Some (Cursor b) # cs'"
    by (auto split: sum.splits)
  from Cons.IH [OF o] b cs show ?case by auto
qed

lemma count_list_concat:
  "count_list (concat xss) x = sum_list (map (\<lambda>xs. count_list xs x) xss)"
  by (induction xss) simp_all

lemma count_bucket_ids_rev: "count_list (bucket_ids fe (rev b)) x = count_list (bucket_ids fe b) x"
  by (simp add: bucket_ids_def count_list_concat rev_map [symmetric] o_def)

lemma distinct_count_le_1: "distinct xs \<Longrightarrow> count_list xs x \<le> 1"
  by (induction xs) (auto simp: count_list_0_iff)

lemma sum_list_le_length:
  fixes g :: "'a \<Rightarrow> nat"
  shows "\<forall>c \<in> set cs. g c \<le> 1 \<Longrightarrow> sum_list (map g cs) \<le> length cs"
  by (induction cs) auto

lemma acc_inv_init:
  assumes "\<forall>m \<in> set (mods q). \<forall>b. gb (rootType q) (rootFlavor q) m (league q) = Inr b
              \<longrightarrow> distinct (bucket_ids fe b)"
    and "open_cursors gb q (mods q) = Inr cs"
  shows "acc_inv fe (length (mods q))
           \<lparr>validCursors = int (length cs), cursors = cs, set_ids = Map.empty, result = []\<rparr> []"
proof (rule acc_invI)
  fix y
  let ?g = "\<lambda>c. case c of None \<Rightarrow> 0 | Some l \<Rightarrow> count_list (bucket_ids fe l) y"
  have "?g c \<le> 1" if "c \<in> set cs" for c
  proof -
    from open_cursors_buckets [OF assms(2)] that obtain m b where
      "m \<in> set (mods q)" "gb (rootType q) (rootFlavor q) m (league q) = Inr b"
      "c = Some (Cursor b)" by blast
    with assms(1) have "distinct (bucket_ids fe b)" "c = Some (rev b)"
      by (auto simp: Cursor_def)
    with distinct_count_le_1 [of "bucket_ids fe b" y] show ?thesis
      by (simp add: count_bucket_ids_rev)
  qed
  then have "sum_list (map ?g cs) \<le> length cs" by (intro sum_list_le_length) simp
  with open_cursors_Some [OF assms(2)]
  show "counted \<lparr>validCursors = int (length cs), cursors = cs, set_ids = Map.empty, result = []\<rparr> y
          + int (count_list [] y + pending fe
              \<lparr>validCursors = int (length cs), cursors = cs, set_ids = Map.empty, result = []\<rparr> y)
          \<le> int (length (mods q))"
    by (simp add: counted_def pending_def)
qed simp_all

subsection \<open>The bound on the result\<close>

text \<open>
  C1. The claim is that the result of \<^verbatim>\<open>Run\<close> never holds more than
  \<^verbatim>\<open>maxDesired\<close> entries. \<^verbatim>\<open>registerID\<close> appends without looking at the bound,
  and the driver compares the length with \<^verbatim>\<open>maxDesired\<close> only between stride
  passes. With one mod, \<^verbatim>\<open>maxDesired = 1\<close> and a bucket whose only key carries two
  item IDs (of one byte each), priming alone promotes both: the result has two entries.
\<close>

theorem Run_result_exceeds_maxDesired:
  "Run 1 (\<lambda>rt rf m lg. Inr [KeyValue [5] [1, 2]]) (\<lambda>k. Inr (map ucast k)) (map (\<lambda>b. [b]))
       (NewIndexQuery 10 0 0 [0] [0] 0 1) = Some (Inr ([[1], [2]], None))
   \<and> int (length [[1], [2 :: 8 word]]) > maxDesired (NewIndexQuery 10 0 0 [0] [0] 0 1)"
  by (simp add: run_defs run_loop.simps)

subsection \<open>The stride budget\<close>

text \<open>
  C3. The claim is that every ID registered counts toward the stride budget of 32,
  so that the inner loop leaves a cursor only after 32 IDs, at the start of the bucket
  or at a key below the minimum. \<^verbatim>\<open>checkPair\<close> always returns the count 0, so the
  inner loop stops after the first pair it checks: below, a cursor with two qualifying
  pairs of one ID each is advanced by one pair only and stays valid.
\<close>

theorem stride_stops_after_one_pair:
  "map_sum id (\<lambda>(e, cx). (e, validCursors cx, cursors cx, result cx))
     (stride (\<lambda>k. Inr (map ucast k)) (map (\<lambda>b. [b])) (NewIndexQuery 10 0 0 [0] [0] 0 4)
        \<lparr>validCursors = 1, cursors = [Some [KeyValue [6] [2], KeyValue [5] [1]]],
         set_ids = Map.empty, result = []\<rparr>)
   = Inr (None, 1, [Some [KeyValue [5] [1]]], [[2]])"
  by (simp add: run_defs)

subsection \<open>A bucket that cannot be opened\<close>

text \<open>
  C4. The claim is that a bucket that cannot be opened makes \<^verbatim>\<open>Run\<close> return an
  error instead of crashing. \<^verbatim>\<open>initContext\<close> returns its error before it sets
  \<^verbatim>\<open>q.ctx\<close>, and \<^verbatim>\<open>Run\<close> then evaluates \<^verbatim>\<open>q.ctx.result\<close> on the nil context:
  the run panics, for any decoder of keys and entries and any size of an ID.
\<close>

theorem Run_bucket_open_failure_panics:
  "Run idSize (\<lambda>rt rf m lg. Inl (ErrorMsg ''bucket not found'')) dk fe
       (NewIndexQuery 10 0 0 [0] [0] 0 4)
     = Some (Inl NilDereference)"
  by (simp add: run_defs)

subsection \<open>Scaled minimums\<close>

text \<open>
  C8. \<^verbatim>\<open>NewIndexQuery\<close> stores, at each position, the given minimum multiplied by the
  scale factor as a 16-bit unsigned product (it wraps modulo 65536), and \<^verbatim>\<open>checkPair\<close>
  compares the primary value of a decoded key with this stored product: the IDs of the
  entry are registered when the primary value reaches it, the slot is removed otherwise.
\<close>

theorem NewIndexQuery_scaled_minimums:
  "minModValues (NewIndexQuery F rt rf ms mins lg maxD) = map (\<lambda>v. v * F) mins
   \<and> (\<forall>i < length mins.
        minModValues (NewIndexQuery F rt rf ms mins lg maxD) ! i = mins ! i * F
      \<and> unat (minModValues (NewIndexQuery F rt rf ms mins lg maxD) ! i)
          = (unat (mins ! i) * unat F) mod 65536
      \<and> (\<forall>p vs cx k v. dk k = Inr (p # vs) \<longrightarrow>
           checkPair dk fe (NewIndexQuery F rt rf ms mins lg maxD) cx k v i =
             (if mins ! i * F \<le> p
              then Inr ((0, None),
                     foldl (registerID (NewIndexQuery F rt rf ms mins lg maxD)) cx (fe v))
              else map_sum id (\<lambda>cx'. ((0, None), cx')) (removeCursor cx i))))"
  by (auto simp: NewIndexQuery_def unat_word_ariths checkPair_def split: sum.splits)

theorem NewIndexQuery_scaled_minimums_witness:
  "(1 :: nat) < length [24, 7000 :: uint16]
   \<and> minModValues (NewIndexQuery 10 0 0 [0, 1] [24, 7000] 0 4) ! 1 = 4464
   \<and> unat (minModValues (NewIndexQuery 10 0 0 [0, 1] [24, 7000] 0 4) ! 1) = 70000 mod 65536
   \<and> (\<lambda>k. Inr (map ucast k) :: error + uint16 list) [239 :: 8 word] = Inr (239 # [])
   \<and> checkPair (\<lambda>k. Inr (map ucast k)) (map (\<lambda>b. [b]))
        (NewIndexQuery 10 0 0 [0, 1] [24, 7000] 0 4)
        \<lparr>validCursors = 2, cursors = [Some [], Some []], set_ids = Map.empty, result = []\<rparr>
        [239] [1] 1
      = Inr ((0, None),
          \<lparr>validCursors = 1, cursors = [Some [], None], set_ids = Map.empty, result = []\<rparr>)"
proof -
  have i: "(1 :: nat) < length [24, 7000 :: uint16]" by simp
  have k: "(\<lambda>k. Inr (map ucast k) :: error + uint16 list) [239 :: 8 word] = Inr (239 # [])"
    by simp
  note t = NewIndexQuery_scaled_minimums
      [of 10 0 0 "[0, 1]" "[24, 7000]" 0 4 "\<lambda>k. Inr (map ucast k)" "map (\<lambda>b. [b])",
       THEN conjunct2, rule_format, OF i]
  from t have a: "minModValues (NewIndexQuery 10 0 0 [0, 1] [24, 7000] 0 4) ! 1 = 4464"
    and b: "unat (minModValues (NewIndexQuery 10 0 0 [0, 1] [24, 7000] 0 4) ! 1)
              = 70000 mod 65536"
    by simp_all
  from t have "checkPair (\<lambda>k. Inr (map ucast k)) (map (\<lambda>b. [b]))
        (NewIndexQuery 10 0 0 [0, 1] [24, 7000] 0 4)
        \<lparr>validCursors = 2, cursors = [Some [], Some []], set_ids = Map.empty, result = []\<rparr>
        [239] [1] 1
      = Inr ((0, None),
          \<lparr>validCursors = 1, cursors = [Some [], None], set_ids = Map.empty, result = []\<rparr>)"
    using k by (simp add: removeCursor_def)
  with i k a b show ?thesis by blast
qed

subsection \<open>The client-side check\<close>

text \<open>
  C10. For a predicate with as many minimums as mods, \<^verbatim>\<open>Satisfies\<close> of the empty
  list of items returns true.
\<close>

theorem Satisfies_no_items:
  "length (Mods search) = length (MinValues search) \<Longrightarrow> Satisfies GetMods search [] = Inr True"
  by (simp add: Satisfies_def)

theorem Satisfies_no_items_witness:
  "length (Mods \<lparr>MaxDesired = 4, RootType = ''Armour'', RootFlavor = ''Boots'',
             League = ''Legacy'', Mods = [''a'', ''b''], MinValues = [24, 27]\<rparr>)
     = length (MinValues \<lparr>MaxDesired = 4, RootType = ''Armour'', RootFlavor = ''Boots'',
             League = ''Legacy'', Mods = [''a'', ''b''], MinValues = [24, 27]\<rparr>)
   \<and> Satisfies (\<lambda>item. item) \<lparr>MaxDesired = 4, RootType = ''Armour'', RootFlavor = ''Boots'',
             League = ''Legacy'', Mods = [''a'', ''b''], MinValues = [24, 27]\<rparr> [] = Inr True"
  using Satisfies_no_items [of "\<lparr>MaxDesired = 4, RootType = ''Armour'', RootFlavor = ''Boots'',
             League = ''Legacy'', Mods = [''a'', ''b''], MinValues = [24, 27]\<rparr>" "\<lambda>item. item"]
  by simp

subsection \<open>Invalidation of a slot\<close>

text \<open>
  C6. When the key of a pair decodes to a primary value below the scaled minimum of
  slot \<open>i\<close>, \<^verbatim>\<open>checkPair\<close> clears the slot and decrements \<^verbatim>\<open>validCursors\<close>; the
  accumulator map and the result are left as they were, so no ID of the entry is
  registered. A cleared slot stays cleared: a stride pass skips it, and neither a stride
  pass, nor the priming of the other slots, nor the driver loop sets it again.
  The loops stop reading the cursor at that pair. The inner loop of \<^verbatim>\<open>stride\<close>, having
  skipped nested buckets, returns at once with the slot cleared, \<^verbatim>\<open>validCursors\<close>
  decremented once and the pairs below unread; the rest of the pass runs on that context
  and ends with the slot cleared, whether it ends in an error or not. Priming does the
  same on the last pair of the bucket. A driver loop that makes a pass on a context with
  such a cursor and ends without error ends with the slot cleared.
\<close>

theorem below_minimum_invalidates_slot:
  assumes "dk k = Inr values" and "values \<noteq> []"
    and "i < length (minModValues q)" and "i < length (cursors cx)"
    and "values ! 0 < minModValues q ! i"
  shows "checkPair dk fe q cx k v i =
           Inr ((0, None), cx\<lparr>cursors := (cursors cx)[i := None],
                                validCursors := validCursors cx - 1\<rparr>)
       \<and> (\<forall>cx1. cursors cx1 ! i = None \<longrightarrow>
            (\<forall>js. stride_range dk fe q cx1 (i # js) = stride_range dk fe q cx1 js)
          \<and> (\<forall>e cx2. stride dk fe q cx1 = Inr (e, cx2) \<longrightarrow> cursors cx2 ! i = None)
          \<and> (\<forall>js e cx2. i \<notin> set js \<and> prime_range dk fe q cx1 js = Inr (e, cx2)
                \<longrightarrow> cursors cx2 ! i = None)
          \<and> (\<forall>f e cx2. cursors_consistent cx1 \<and> run_loop dk fe q cx1 f = Some (Inr (e, cx2))
                \<longrightarrow> cursors cx2 ! i = None))
       \<and> (\<forall>ws c'. stride_cursor dk fe q cx i (map NestedBucket ws @ KeyValue k v # c') 0 =
             Inr (None, cx\<lparr>cursors := (cursors cx)[i := None],
                             validCursors := validCursors cx - 1\<rparr>))
       \<and> (\<forall>ws c' js e cx'.
             cursors cx ! i = Some (map NestedBucket ws @ KeyValue k v # c')
             \<and> (\<forall>j \<in> set js. j < length (cursors cx))
             \<and> stride_range dk fe q cx (i # js) = Inr (e, cx')
             \<longrightarrow> stride_range dk fe q
                    (cx\<lparr>cursors := (cursors cx)[i := None],
                        validCursors := validCursors cx - 1\<rparr>) js = Inr (e, cx')
                 \<and> cursors cx' ! i = None)
       \<and> (\<forall>ws c' cx'.
             cursors cx ! i = Some (map NestedBucket ws @ KeyValue k v # c')
             \<and> stride dk fe q cx = Inr (None, cx')
             \<longrightarrow> cursors cx' ! i = None)
       \<and> (\<forall>c' js e cx'.
             cursors cx ! i = Some (KeyValue k v # c') \<and> i \<notin> set js
             \<and> prime_range dk fe q cx (i # js) = Inr (e, cx')
             \<longrightarrow> prime_range dk fe q
                    (cx\<lparr>cursors := (cursors cx)[i := None],
                        validCursors := validCursors cx - 1\<rparr>) js = Inr (e, cx')
                 \<and> cursors cx' ! i = None)
       \<and> (\<forall>ws c' f cx'.
             cursors cx ! i = Some (map NestedBucket ws @ KeyValue k v # c')
             \<and> cursors_consistent cx \<and> f < maxDesired q
             \<and> run_loop dk fe q cx f = Some (Inr (None, cx'))
             \<longrightarrow> cursors cx' ! i = None)"
proof -
  let ?cxr = "cx\<lparr>cursors := (cursors cx)[i := None], validCursors := validCursors cx - 1\<rparr>"
  note sc = stride_cursor_below_minimum [where dk = dk and k = k, OF assms(1,2,3,5)]
  have cp: "checkPair dk fe q cx0 k v i =
           Inr ((0, None), cx0\<lparr>cursors := (cursors cx0)[i := None],
                                validCursors := validCursors cx0 - 1\<rparr>)"
    if "i < length (cursors cx0)" for cx0
    using assms(1,2,3,5) that by (auto simp: checkPair_def removeCursor_def)
  have none_r: "cursors ?cxr ! i = None" using assms(4) by simp
  have c1: "checkPair dk fe q cx k v i = Inr ((0, None), ?cxr)"
    using cp [OF assms(4)] .
  have c2: "\<forall>cx1. cursors cx1 ! i = None \<longrightarrow>
            (\<forall>js. stride_range dk fe q cx1 (i # js) = stride_range dk fe q cx1 js)
          \<and> (\<forall>e cx2. stride dk fe q cx1 = Inr (e, cx2) \<longrightarrow> cursors cx2 ! i = None)
          \<and> (\<forall>js e cx2. i \<notin> set js \<and> prime_range dk fe q cx1 js = Inr (e, cx2)
                \<longrightarrow> cursors cx2 ! i = None)
          \<and> (\<forall>f e cx2. cursors_consistent cx1 \<and> run_loop dk fe q cx1 f = Some (Inr (e, cx2))
                \<longrightarrow> cursors cx2 ! i = None)"
  proof (intro conjI allI impI)
    fix cx1 :: indexQueryContext and js
    assume "cursors cx1 ! i = None"
    then show "stride_range dk fe q cx1 (i # js) = stride_range dk fe q cx1 js" by simp
  next
    fix cx1 e cx2
    assume "cursors cx1 ! i = None" "stride dk fe q cx1 = Inr (e, cx2)"
    then show "cursors cx2 ! i = None" by (rule stride_keeps_None [rotated])
  next
    fix cx1 js e cx2
    assume n: "cursors cx1 ! i = None"
      and "i \<notin> set js \<and> prime_range dk fe q cx1 js = Inr (e, cx2)"
    then have "prime_range dk fe q cx1 js = Inr (e, cx2)" "i \<notin> set js" by simp_all
    from prime_range_other_slot [OF this] n show "cursors cx2 ! i = None" by simp
  next
    fix cx1 f e cx2
    assume n: "cursors cx1 ! i = None"
      and "cursors_consistent cx1 \<and> run_loop dk fe q cx1 f = Some (Inr (e, cx2))"
    then have "run_loop dk fe q cx1 f = Some (Inr (e, cx2))" "cursors_consistent cx1"
      by simp_all
    from run_loop_keeps_None [OF this n] show "cursors cx2 ! i = None" .
  qed
  have c3: "\<forall>ws c'. stride_cursor dk fe q cx i (map NestedBucket ws @ KeyValue k v # c') 0 =
             Inr (None, ?cxr)"
    using sc [OF assms(4)] by simp
  have c4: "stride_range dk fe q ?cxr js = Inr (e, cx') \<and> cursors cx' ! i = None"
    if "cursors cx ! i = Some (map NestedBucket ws @ KeyValue k v # c')"
      "\<forall>j \<in> set js. j < length (cursors cx)"
      "stride_range dk fe q cx (i # js) = Inr (e, cx')" for ws c' js e cx'
  proof -
    from that(1,3) sc [OF assms(4), where ws = ws and c' = c' and fe = fe and v = v]
    have r: "stride_range dk fe q ?cxr js = Inr (e, cx')" by simp
    from that(2) have "\<forall>j \<in> set js. j < length (cursors ?cxr)" by simp
    from stride_range_keeps_None [OF r this none_r] r show ?thesis by simp
  qed
  have inv: "cursors cx1 ! i = None"
    if "i < length (cursors cx0)"
      "stride_cursor dk fe q cx0 i (map NestedBucket ws @ KeyValue k v # c') 0 = Inr (e, cx1)"
    for ws c' cx0 e cx1
    using sc [OF that(1), where ws = ws and c' = c' and fe = fe and v = v] that by auto
  have c5: "cursors cx' ! i = None"
    if "cursors cx ! i = Some (map NestedBucket ws @ KeyValue k v # c')"
      "stride dk fe q cx = Inr (None, cx')" for ws c' cx'
  proof -
    from that(2) have r: "stride_range dk fe q cx [0..<length (cursors cx)] = Inr (None, cx')"
      by (simp add: stride_def)
    show ?thesis
      by (rule stride_range_invalidates [OF r _ _ that(1)]) (use assms(4) inv in auto)
  qed
  have c6: "prime_range dk fe q ?cxr js = Inr (e, cx') \<and> cursors cx' ! i = None"
    if "cursors cx ! i = Some (KeyValue k v # c')" "i \<notin> set js"
      "prime_range dk fe q cx (i # js) = Inr (e, cx')" for c' js e cx'
  proof -
    let ?cx1 = "cx\<lparr>cursors := (cursors cx)[i := Some c']\<rparr>"
    from assms(4) have "i < length (cursors ?cx1)" by simp
    from cp [OF this] have "checkPair dk fe q ?cx1 k v i = Inr ((0, None), ?cxr)" by simp
    with that(1,3) have r: "prime_range dk fe q ?cxr js = Inr (e, cx')"
      by (simp add: cursor_Last_def)
    from prime_range_other_slot [OF r that(2)] none_r r show ?thesis by simp
  qed
  have c7: "cursors cx' ! i = None"
    if "cursors cx ! i = Some (map NestedBucket ws @ KeyValue k v # c')"
      "cursors_consistent cx" "f < maxDesired q"
      "run_loop dk fe q cx f = Some (Inr (None, cx'))" for ws c' f cx'
  proof (rule run_loop_first_pass [OF that(4,2,3)])
    from consistent_live [OF that(2) assms(4)] that(1) show "0 < validCursors cx" by simp
  next
    fix cx1
    assume "stride dk fe q cx = Inr (None, cx1)"
    with c5 that(1) show "cursors cx1 ! i = None" by blast
  qed
  have c4': "\<forall>ws c' js e cx'.
             cursors cx ! i = Some (map NestedBucket ws @ KeyValue k v # c')
             \<and> (\<forall>j \<in> set js. j < length (cursors cx))
             \<and> stride_range dk fe q cx (i # js) = Inr (e, cx')
             \<longrightarrow> stride_range dk fe q ?cxr js = Inr (e, cx') \<and> cursors cx' ! i = None"
    using c4 by blast
  have c5': "\<forall>ws c' cx'.
             cursors cx ! i = Some (map NestedBucket ws @ KeyValue k v # c')
             \<and> stride dk fe q cx = Inr (None, cx')
             \<longrightarrow> cursors cx' ! i = None"
    using c5 by blast
  have c6': "\<forall>c' js e cx'.
             cursors cx ! i = Some (KeyValue k v # c') \<and> i \<notin> set js
             \<and> prime_range dk fe q cx (i # js) = Inr (e, cx')
             \<longrightarrow> prime_range dk fe q ?cxr js = Inr (e, cx') \<and> cursors cx' ! i = None"
    using c6 by blast
  have c7': "\<forall>ws c' f cx'.
             cursors cx ! i = Some (map NestedBucket ws @ KeyValue k v # c')
             \<and> cursors_consistent cx \<and> f < maxDesired q
             \<and> run_loop dk fe q cx f = Some (Inr (None, cx'))
             \<longrightarrow> cursors cx' ! i = None"
    using c7 by blast
  show ?thesis
    by (intro conjI) (rule c1 c2 c3 c4' c5' c6' c7')+
qed

theorem below_minimum_invalidates_slot_witness:
  "(\<lambda>k. Inr (map ucast k) :: error + uint16 list) [239 :: 8 word] = Inr [239]
   \<and> [239 :: uint16] \<noteq> []
   \<and> (0 :: nat) < length (minModValues (NewIndexQuery 10 0 0 [7] [24] 0 4))
   \<and> (0 :: nat) < length (cursors
         \<lparr>validCursors = 1,
          cursors = [Some [NestedBucket [9], KeyValue [239] [1, 2], KeyValue [200] [3]]],
          set_ids = Map.empty, result = []\<rparr>)
   \<and> [239 :: uint16] ! 0 < minModValues (NewIndexQuery 10 0 0 [7] [24] 0 4) ! 0
   \<and> checkPair (\<lambda>k. Inr (map ucast k)) (map (\<lambda>b. [b])) (NewIndexQuery 10 0 0 [7] [24] 0 4)
        \<lparr>validCursors = 1,
         cursors = [Some [NestedBucket [9], KeyValue [239] [1, 2], KeyValue [200] [3]]],
         set_ids = Map.empty, result = []\<rparr>
        [239] [1, 2] 0
      = Inr ((0, None), \<lparr>validCursors = 0, cursors = [None], set_ids = Map.empty, result = []\<rparr>)
   \<and> stride_cursor (\<lambda>k. Inr (map ucast k)) (map (\<lambda>b. [b]))
        (NewIndexQuery 10 0 0 [7] [24] 0 4)
        \<lparr>validCursors = 1,
         cursors = [Some [NestedBucket [9], KeyValue [239] [1, 2], KeyValue [200] [3]]],
         set_ids = Map.empty, result = []\<rparr>
        0 [NestedBucket [9], KeyValue [239] [1, 2], KeyValue [200] [3]] 0
      = Inr (None, \<lparr>validCursors = 0, cursors = [None], set_ids = Map.empty, result = []\<rparr>)
   \<and> stride (\<lambda>k. Inr (map ucast k)) (map (\<lambda>b. [b])) (NewIndexQuery 10 0 0 [7] [24] 0 4)
        \<lparr>validCursors = 1,
         cursors = [Some [NestedBucket [9], KeyValue [239] [1, 2], KeyValue [200] [3]]],
         set_ids = Map.empty, result = []\<rparr>
      = Inr (None, \<lparr>validCursors = 0, cursors = [None], set_ids = Map.empty, result = []\<rparr>)
   \<and> stride (\<lambda>k. Inr (map ucast k)) (map (\<lambda>b. [b])) (NewIndexQuery 10 0 0 [7] [24] 0 4)
        \<lparr>validCursors = 0, cursors = [None], set_ids = Map.empty, result = []\<rparr>
      = Inr (None, \<lparr>validCursors = 0, cursors = [None], set_ids = Map.empty, result = []\<rparr>)
   \<and> cursors \<lparr>validCursors = 0, cursors = [None :: cursor option], set_ids = Map.empty,
               result = []\<rparr> ! 0 = None"
proof -
  let ?dk = "\<lambda>k. Inr (map ucast k) :: error + uint16 list"
  let ?fe = "map (\<lambda>b. [b]) :: forEachID"
  let ?q = "NewIndexQuery 10 0 0 [7] [24] 0 4"
  let ?c = "[NestedBucket [9], KeyValue [239] [1, 2], KeyValue [200] [3]]"
  let ?cx = "\<lparr>validCursors = 1, cursors = [Some ?c], set_ids = Map.empty, result = []\<rparr>"
  let ?cx1 = "\<lparr>validCursors = 0, cursors = [None :: cursor option],
              set_ids = Map.empty, result = []\<rparr>"
  have h1: "?dk [239 :: 8 word] = Inr [239]" by simp
  have h2: "[239 :: uint16] \<noteq> []" by simp
  have h3: "(0 :: nat) < length (minModValues ?q)" by (simp add: NewIndexQuery_def)
  have h4: "(0 :: nat) < length (cursors ?cx)" by simp
  have h5: "[239 :: uint16] ! 0 < minModValues ?q ! 0" by (simp add: NewIndexQuery_def)
  note t = below_minimum_invalidates_slot
      [of ?dk "[239]" "[239]" 0 ?q ?cx ?fe "[1, 2]", OF h1 h2 h3 h4 h5]
  have c: "checkPair ?dk ?fe ?q ?cx [239] [1, 2] 0 = Inr ((0, None), ?cx1)"
    using t [THEN conjunct1] by simp
  have sc: "stride_cursor ?dk ?fe ?q ?cx 0 ?c 0 = Inr (None, ?cx1)"
    using t [THEN conjunct2, THEN conjunct2, THEN conjunct1, rule_format,
        of "[[9]]" "[KeyValue [200] [3]]"]
    by simp
  have s0: "stride ?dk ?fe ?q ?cx = Inr (None, ?cx1)" by (simp add: run_defs)
  have s: "stride ?dk ?fe ?q ?cx1 = Inr (None, ?cx1)" by (simp add: stride_def)
  have n: "cursors ?cx1 ! 0 = None" by simp
  from t [THEN conjunct2, THEN conjunct1, rule_format, OF n,
      THEN conjunct2, THEN conjunct1, rule_format, OF s]
  have "cursors ?cx1 ! 0 = None" .
  with h1 h2 h3 h4 h5 c sc s0 s show ?thesis by (intro conjI)
qed

subsection \<open>Termination\<close>

text \<open>
  C7. \<^verbatim>\<open>Run\<close> terminates on every query and every (finite) index: the model of
  \<^verbatim>\<open>Run\<close> always returns a value, be it a result, an error or a panic. The reason
  is the one the claim gives: a stride pass that is entered with a valid cursor and ends
  without error advances or invalidates every valid cursor, so the work left strictly
  decreases, and the count of valid cursors stays exact.
\<close>

theorem Run_terminates_with_progress:
  "(\<exists>r. Run idSize gb dk fe q = Some r)
   \<and> (\<forall>cx cx'. cursors_consistent cx \<and> 0 < validCursors cx \<and> stride dk fe q cx = Inr (None, cx')
        \<longrightarrow> cursors_consistent cx' \<and> remaining_work cx' < remaining_work cx)"
  using Run_total stride_progress(1,4) by blast

theorem Run_terminates_with_progress_witness:
  "(\<exists>r. Run 1 (\<lambda>rt rf m lg. Inr [KeyValue [5] [1, 2]]) (\<lambda>k. Inr (map ucast k))
          (map (\<lambda>b. [b])) (NewIndexQuery 10 0 0 [0, 1] [0, 0] 0 4) = Some r)
   \<and> cursors_consistent \<lparr>validCursors = 2, cursors = [Some [KeyValue [6] [2]], Some []],
                           set_ids = Map.empty, result = []\<rparr>
   \<and> 0 < validCursors \<lparr>validCursors = 2, cursors = [Some [KeyValue [6] [2]], Some []],
                           set_ids = Map.empty, result = []\<rparr>
   \<and> stride (\<lambda>k. Inr (map ucast k)) (map (\<lambda>b. [b])) (NewIndexQuery 10 0 0 [0, 1] [0, 0] 0 4)
        \<lparr>validCursors = 2, cursors = [Some [KeyValue [6] [2]], Some []],
         set_ids = Map.empty, result = []\<rparr>
      = Inr (None, \<lparr>validCursors = 1, cursors = [Some [], None],
                     set_ids = [[2] \<mapsto> 1], result = []\<rparr>)
   \<and> cursors_consistent \<lparr>validCursors = 1, cursors = [Some [], None],
                           set_ids = [[2] \<mapsto> 1], result = []\<rparr>
   \<and> remaining_work \<lparr>validCursors = 1, cursors = [Some [], None],
                       set_ids = [[2] \<mapsto> 1], result = []\<rparr>
     < remaining_work \<lparr>validCursors = 2, cursors = [Some [KeyValue [6] [2]], Some []],
                        set_ids = Map.empty, result = []\<rparr>"
proof -
  let ?dk = "\<lambda>k. Inr (map ucast k) :: error + uint16 list"
  let ?fe = "map (\<lambda>b. [b]) :: forEachID"
  let ?q = "NewIndexQuery 10 0 0 [0, 1] [0, 0] 0 4"
  let ?cx = "\<lparr>validCursors = 2, cursors = [Some [KeyValue [6] [2]], Some []],
              set_ids = Map.empty, result = []\<rparr>"
  let ?cx' = "\<lparr>validCursors = 1, cursors = [Some [], None],
               set_ids = [[2] \<mapsto> 1], result = []\<rparr>"
  note t = Run_terminates_with_progress
      [of 1 "\<lambda>rt rf m lg. Inr [KeyValue [5] [1, 2]]" ?dk ?fe ?q]
  have c: "cursors_consistent ?cx" by (simp add: cursors_consistent_def)
  have v: "0 < validCursors ?cx" by simp
  have s: "stride ?dk ?fe ?q ?cx = Inr (None, ?cx')"
    by (simp add: run_defs)
  from t [THEN conjunct2, rule_format, of ?cx ?cx'] c v s
  have "cursors_consistent ?cx' \<and> remaining_work ?cx' < remaining_work ?cx" by blast
  with t [THEN conjunct1] c v s show ?thesis by (intro conjI) simp_all
qed

subsection \<open>Missing buckets\<close>

text \<open>
  C5, as stated: the cursor of a mod without a bucket is invalidated at once, and with
  every bucket missing \<^verbatim>\<open>Run\<close> returns the empty result and the nil error. Priming
  skips the pair \<^verbatim>\<open>(nil, nil)\<close> and leaves the cursor valid; only a stride pass removes
  it, and with \<^verbatim>\<open>maxDesired = 0\<close> no pass is made: the run ends with both cursors
  valid. With \<^verbatim>\<open>maxDesired = -1\<close> the run panics in \<^verbatim>\<open>make\<close>.
\<close>

theorem missing_bucket_cursor_survives_priming:
  "run_tx 1 (getItemModIndexBucketRO (\<lambda>rt rf m lg. NotFound)) (\<lambda>k. Inr (map ucast k))
      (map (\<lambda>b. [b])) (NewIndexQuery 10 0 0 [1, 2] [24, 27] 0 0)
     = Some (Inr (None, (NewIndexQuery 10 0 0 [1, 2] [24, 27] 0 0)
          \<lparr>ctx := Some \<lparr>validCursors = 2, cursors = [Some [], Some []],
                           set_ids = Map.empty, result = []\<rparr>\<rparr>))
   \<and> Run 1 (getItemModIndexBucketRO (\<lambda>rt rf m lg. NotFound)) (\<lambda>k. Inr (map ucast k))
      (map (\<lambda>b. [b])) (NewIndexQuery 10 0 0 [1, 2] [24, 27] 0 (- 1))
     = Some (Inl MakesliceCapOutOfRange)"
  by (simp add: run_defs run_loop.simps getItemModIndexBucketRO_def)

text \<open>
  C5, amended. Let \<^verbatim>\<open>maxDesired\<close> be a capacity that \<^verbatim>\<open>make\<close> accepts, and let no
  bucket of the queried mods fail to open. Then \<^verbatim>\<open>initContext\<close> succeeds, and the slot
  of every mod whose bucket is missing holds an exhausted cursor; priming leaves an
  exhausted cursor valid, and a stride pass that ends without error clears every slot
  whose cursor is exhausted; a run with
  \<^verbatim>\<open>maxDesired > 0\<close> that ends without error leaves the slot of every mod whose bucket
  is missing cleared; and when the bucket of every queried mod is missing, \<^verbatim>\<open>Run\<close>
  returns the empty result and the nil error.
\<close>

theorem missing_buckets_are_not_errors:
  assumes "\<not> makeslice_cap_out_of_range idSize (maxDesired q)"
    and "\<forall>m \<in> set (mods q). \<forall>err. t (rootType q) (rootFlavor q) m (league q) \<noteq> OpenError err"
  shows "(\<exists>cx. initContext idSize (getItemModIndexBucketRO t) q = Inr (None, q\<lparr>ctx := Some cx\<rparr>)
            \<and> length (cursors cx) = length (mods q)
            \<and> (\<forall>i < length (mods q).
                  t (rootType q) (rootFlavor q) (mods q ! i) (league q) = NotFound
                  \<longrightarrow> cursors cx ! i = Some []))
       \<and> (\<forall>cx1 js e cx2 i. cursors cx1 ! i = Some []
              \<and> prime_range dk fe q cx1 js = Inr (e, cx2) \<longrightarrow> cursors cx2 ! i = Some [])
       \<and> (\<forall>cx1 cx2 i. i < length (cursors cx1) \<and> cursors cx1 ! i = Some []
              \<and> stride dk fe q cx1 = Inr (None, cx2) \<longrightarrow> cursors cx2 ! i = None)
       \<and> (\<forall>i q'. i < length (mods q)
              \<and> t (rootType q) (rootFlavor q) (mods q ! i) (league q) = NotFound
              \<and> 0 < maxDesired q
              \<and> run_tx idSize (getItemModIndexBucketRO t) dk fe q = Some (Inr (None, q'))
              \<longrightarrow> (\<exists>cx'. ctx q' = Some cx' \<and> cursors cx' ! i = None))
       \<and> ((\<forall>m \<in> set (mods q). t (rootType q) (rootFlavor q) m (league q) = NotFound)
            \<longrightarrow> Run idSize (getItemModIndexBucketRO t) dk fe q = Some (Inr ([], None)))"
proof (intro conjI allI impI)
  from open_cursors_no_error [of "mods q" t q, OF assms(2)] obtain cs where
    cs: "open_cursors (getItemModIndexBucketRO t) q (mods q) = Inr cs"
      "length cs = length (mods q)"
      "\<forall>i < length (mods q). t (rootType q) (rootFlavor q) (mods q ! i) (league q) = NotFound
          \<longrightarrow> cs ! i = Some []"
    by blast
  let ?cx = "\<lparr>validCursors = int (length cs), cursors = cs, set_ids = Map.empty, result = []\<rparr>"
  from cs(1) assms(1)
  have ic: "initContext idSize (getItemModIndexBucketRO t) q = Inr (None, q\<lparr>ctx := Some ?cx\<rparr>)"
    by (simp add: initContext_def)
  with cs(2,3)
  show "\<exists>cx. initContext idSize (getItemModIndexBucketRO t) q = Inr (None, q\<lparr>ctx := Some cx\<rparr>)
            \<and> length (cursors cx) = length (mods q)
            \<and> (\<forall>i < length (mods q).
                  t (rootType q) (rootFlavor q) (mods q ! i) (league q) = NotFound
                  \<longrightarrow> cursors cx ! i = Some [])"
    by (intro exI [of _ ?cx]) simp
  show "Run idSize (getItemModIndexBucketRO t) dk fe q = Some (Inr ([], None))"
    if nf: "\<forall>m \<in> set (mods q). t (rootType q) (rootFlavor q) m (league q) = NotFound"
  proof -
    let ?q1 = "q\<lparr>ctx := Some ?cx\<rparr>"
    from nf cs(2,3) have all: "\<forall>i < length cs. cs ! i = Some []" by simp
    then have a: "\<forall>c \<in> set (cursors ?cx). c = None \<or> c = Some []"
      by (auto simp: in_set_conv_nth)
    from all have "\<forall>j \<in> set [0..<length (cursors ?cx)].
        j < length (cursors ?cx) \<and> cursors ?cx ! j = Some []" by simp
    from prime_range_exhausted [OF this]
    have pr: "prime_range dk fe ?q1 ?cx [0..<length (cursors ?cx)] = Inr (None, ?cx)" .
    from initContext_consistent [OF ic] have "cursors_consistent ?cx" by auto
    from run_loop_all_exhausted [OF a this, of dk fe ?q1 0] obtain cx' where
      "run_loop dk fe ?q1 ?cx 0 = Some (Inr (None, cx'))" "result cx' = []" by auto
    with ic pr show ?thesis by (simp add: Run_def run_tx_def)
  qed
next
  fix cx1 js e cx2 i
  assume "cursors cx1 ! i = Some [] \<and> prime_range dk fe q cx1 js = Inr (e, cx2)"
  then have "prime_range dk fe q cx1 js = Inr (e, cx2)" "cursors cx1 ! i = Some []"
    by simp_all
  then show "cursors cx2 ! i = Some []" by (rule prime_range_keeps_exhausted)
next
  fix cx1 cx2 i
  assume "i < length (cursors cx1) \<and> cursors cx1 ! i = Some []
              \<and> stride dk fe q cx1 = Inr (None, cx2)"
  then show "cursors cx2 ! i = None" by (auto intro: stride_exhausted)
next
  fix i q'
  assume a: "i < length (mods q)
              \<and> t (rootType q) (rootFlavor q) (mods q ! i) (league q) = NotFound
              \<and> 0 < maxDesired q
              \<and> run_tx idSize (getItemModIndexBucketRO t) dk fe q = Some (Inr (None, q'))"
  then have i: "i < length (mods q)"
    and nf: "t (rootType q) (rootFlavor q) (mods q ! i) (league q) = NotFound"
    and pos: "0 < maxDesired q"
    and rt: "run_tx idSize (getItemModIndexBucketRO t) dk fe q = Some (Inr (None, q'))"
    by simp_all
  from rt obtain cs cx1 cx2 where
    oc: "open_cursors (getItemModIndexBucketRO t) q (mods q) = Inr cs"
    and pr: "prime_range dk fe
       (q\<lparr>ctx := Some \<lparr>validCursors = int (length cs), cursors = cs,
                         set_ids = Map.empty, result = []\<rparr>\<rparr>)
       \<lparr>validCursors = int (length cs), cursors = cs, set_ids = Map.empty, result = []\<rparr>
       [0..<length cs] = Inr (None, cx1)"
    and rl: "run_loop dk fe
       (q\<lparr>ctx := Some \<lparr>validCursors = int (length cs), cursors = cs,
                         set_ids = Map.empty, result = []\<rparr>\<rparr>) cx1 0
       = Some (Inr (None, cx2))"
    and q': "ctx q' = Some cx2"
    by (rule run_tx_success)
  let ?cx = "\<lparr>validCursors = int (length cs), cursors = cs, set_ids = Map.empty, result = []\<rparr>"
  let ?q1 = "q\<lparr>ctx := Some ?cx\<rparr>"
  from open_cursors_Some [OF oc] have len: "length cs = length (mods q)"
    and c0: "cursors_consistent ?cx"
    by (auto simp: cursors_consistent_def)
  from open_cursors_missing [OF oc i nf] have s0: "cursors ?cx ! i = Some []" by simp
  have b: "\<forall>j \<in> set [0..<length cs]. j < length (cursors ?cx)" by simp
  from prime_range_consistent [OF pr b c0]
  have c1: "cursors_consistent cx1" and l1: "length (cursors cx1) = length cs" by simp_all
  from prime_range_keeps_exhausted [OF pr s0] have s1: "cursors cx1 ! i = Some []" .
  from consistent_live [OF c1] l1 len i s1 have v1: "0 < validCursors cx1" by simp
  from pos have pos1: "0 < maxDesired ?q1" by simp
  have "cursors cx2 ! i = None"
  proof (rule run_loop_first_pass [OF rl c1 pos1 v1])
    fix cx3
    assume "stride dk fe ?q1 cx1 = Inr (None, cx3)"
    from stride_exhausted [OF this _ s1] l1 len i show "cursors cx3 ! i = None" by simp
  qed
  with q' show "\<exists>cx'. ctx q' = Some cx' \<and> cursors cx' ! i = None" by simp
qed

theorem missing_buckets_are_not_errors_witness:
  "\<not> makeslice_cap_out_of_range 1 (maxDesired (NewIndexQuery 10 0 0 [1, 2] [24, 27] 0 4))
   \<and> ((\<lambda>rt rf m lg. if m = 3 then Found [KeyValue [250] [1]] else NotFound) :: tx) 0 0 1 0
       = NotFound
   \<and> ((\<lambda>rt rf m lg. if m = 3 then Found [KeyValue [250] [1]] else NotFound) :: tx) 0 0 2 0
       = NotFound
   \<and> run_tx 1 (getItemModIndexBucketRO
             (\<lambda>rt rf m lg. if m = 3 then Found [KeyValue [250] [1]] else NotFound))
        (\<lambda>k. Inr (map ucast k)) (map (\<lambda>b. [b])) (NewIndexQuery 10 0 0 [1, 2] [24, 27] 0 4)
      = Some (Inr (None, (NewIndexQuery 10 0 0 [1, 2] [24, 27] 0 4)
          \<lparr>ctx := Some \<lparr>validCursors = 0, cursors = [None, None],
                           set_ids = Map.empty, result = []\<rparr>\<rparr>))
   \<and> Run 1 (getItemModIndexBucketRO
             (\<lambda>rt rf m lg. if m = 3 then Found [KeyValue [250] [1]] else NotFound))
        (\<lambda>k. Inr (map ucast k)) (map (\<lambda>b. [b])) (NewIndexQuery 10 0 0 [1, 2] [24, 27] 0 4)
      = Some (Inr ([], None))"
proof -
  let ?q = "NewIndexQuery 10 0 0 [1, 2] [24, 27] 0 4"
  let ?t = "(\<lambda>rt rf m lg. if m = 3 then Found [KeyValue [250] [1]] else NotFound) :: tx"
  let ?dk = "(\<lambda>k. Inr (map ucast k)) :: decodeKey"
  let ?fe = "map (\<lambda>b. [b]) :: forEachID"
  have h1: "\<not> makeslice_cap_out_of_range 1 (maxDesired ?q)"
    by (simp add: NewIndexQuery_def makeslice_cap_out_of_range_def maxAlloc_def)
  have h2: "\<forall>m \<in> set (mods ?q). \<forall>err.
      ?t (rootType ?q) (rootFlavor ?q) m (league ?q) \<noteq> OpenError err"
    by (simp add: NewIndexQuery_def)
  have h3: "\<forall>m \<in> set (mods ?q). ?t (rootType ?q) (rootFlavor ?q) m (league ?q) = NotFound"
    by (simp add: NewIndexQuery_def)
  have r: "run_tx 1 (getItemModIndexBucketRO ?t) ?dk ?fe ?q
      = Some (Inr (None, ?q\<lparr>ctx := Some \<lparr>validCursors = 0, cursors = [None, None],
                           set_ids = Map.empty, result = []\<rparr>\<rparr>))"
    by (simp add: run_defs run_loop.simps getItemModIndexBucketRO_def)
  note t = missing_buckets_are_not_errors [of 1 ?q ?t ?dk ?fe, OF h1 h2]
  from t [THEN conjunct2, THEN conjunct2, THEN conjunct2, THEN conjunct2, THEN mp, OF h3]
  have "Run 1 (getItemModIndexBucketRO ?t) ?dk ?fe ?q = Some (Inr ([], None))" .
  with h1 r show ?thesis by simp
qed

subsection \<open>Satisfies and the mods of the predicate\<close>

text \<open>
  C9. The claim is that \<^verbatim>\<open>Satisfies\<close> is true exactly when every item has, for each
  mod of the predicate, an instance at or above the minimum. \<^verbatim>\<open>Satisfies\<close> counts
  the instances of required mods that reach their minimum and compares the count with
  the number of mods: an item with two instances of the mod \<open>a\<close> and none of \<open>b\<close> passes
  the predicate on \<open>a\<close> and \<open>b\<close>.
\<close>

theorem Satisfies_counts_instances:
  "Satisfies (\<lambda>item. item)
     \<lparr>MaxDesired = 4, RootType = ''Armour'', RootFlavor = ''Boots'', League = ''Legacy'',
      Mods = [''a'', ''b''], MinValues = [1, 1]\<rparr>
     [[\<lparr>Template = ''a'', Values = [5]\<rparr>, \<lparr>Template = ''a'', Values = [6]\<rparr>]] = Inr True
   \<and> ''b'' \<notin> Template ` set [\<lparr>Template = ''a'', Values = [5]\<rparr>,
                                 \<lparr>Template = ''a'', Values = [6 :: uint16]\<rparr>]"
  by (simp add: Satisfies_def)

subsection \<open>Duplicates in the result\<close>

text \<open>
  C2, as stated: the result of \<^verbatim>\<open>Run\<close> never repeats an ID. The accumulator counts
  registrations and forgets an ID once it is promoted, so an ID that a bucket holds under
  two keys is promoted twice by a query on one mod.
\<close>

theorem Run_result_repeats_ID:
  "Run 1 (\<lambda>rt rf m lg. Inr [KeyValue [5] [1], KeyValue [6] [1]]) (\<lambda>k. Inr (map ucast k))
       (map (\<lambda>b. [b])) (NewIndexQuery 10 0 0 [0] [0] 0 4) = Some (Inr ([[1], [1]], None))
   \<and> \<not> distinct [[1], [1 :: 8 word]]"
  by (simp add: run_defs run_loop.simps)

text \<open>
  C2, amended. Let the query have a clear context (as \<^verbatim>\<open>NewIndexQuery\<close> makes it and
  every \<^verbatim>\<open>Run\<close> leaves it), and let no bucket of a queried mod hold an ID twice. Then
  the list that \<^verbatim>\<open>Run\<close> returns, with or without an error, has no duplicates. In any
  case \<^verbatim>\<open>registerID\<close>, on the registration that brings the count of an ID to the
  number of mods, appends the ID to the result and removes it from the map.
\<close>

theorem Run_result_distinct:
  assumes "ctx q = None"
    and "\<forall>m \<in> set (mods q). \<forall>b. gb (rootType q) (rootFlavor q) m (league q) = Inr b
              \<longrightarrow> distinct (bucket_ids fe b)"
    and "Run idSize gb dk fe q = Some (Inr (ids, err))"
  shows "distinct ids
       \<and> (\<forall>cx x. int (length (mods q)) \<le> counted cx x + 1 \<longrightarrow>
             result (registerID q cx x) = result cx @ [x]
           \<and> set_ids (registerID q cx x) x = None)"
proof
  show "\<forall>cx x. int (length (mods q)) \<le> counted cx x + 1 \<longrightarrow>
             result (registerID q cx x) = result cx @ [x]
           \<and> set_ids (registerID q cx x) x = None"
    by (simp add: registerID_promote)
  show "distinct ids"
  proof (cases "open_cursors gb q (mods q)")
    case (Inl e)
    with assms(1,3) show ?thesis
      by (simp add: Run_def run_tx_def initContext_def)
  next
    case (Inr cs)
    let ?cx = "\<lparr>validCursors = int (length cs), cursors = cs, set_ids = Map.empty, result = []\<rparr>"
    let ?q1 = "q\<lparr>ctx := Some ?cx\<rparr>"
    let ?n = "length (mods q)"
    from Inr assms(3) have ic: "initContext idSize gb q = Inr (None, ?q1)"
      by (auto simp: Run_def run_tx_def initContext_def split: if_splits)
    from initContext_consistent [OF ic] have c0: "cursors_consistent ?cx" by auto
    note a0 = acc_inv_init [OF assms(2) Inr]
    have b: "\<forall>j \<in> set [0..<length (cursors ?cx)]. j < length (cursors ?cx)" by simp
    from assms(3) ic obtain e1 cx1 where
      pr: "prime_range dk fe ?q1 ?cx [0..<length (cursors ?cx)] = Inr (e1, cx1)"
      by (cases "prime_range dk fe ?q1 ?cx [0..<length (cursors ?cx)]")
         (auto simp: Run_def run_tx_def)
    from acc_inv_prime_range [OF pr _ b] a0 have a1: "acc_inv fe ?n cx1 []" by simp
    have st: "acc_inv fe ?n cx' []"
      if "acc_inv fe ?n cx []" "stride dk fe ?q1 cx = Inr (e, cx')" for cx e cx'
      using acc_inv_stride [OF that(2)] that(1) by simp
    from prime_range_consistent [OF pr b c0] have c1: "cursors_consistent cx1" by simp
    show ?thesis
    proof (cases e1)
      case (Some e)
      with assms(3) ic pr have "ids = result cx1" by (simp add: Run_def run_tx_def)
      with acc_inv_distinct [OF a1] show ?thesis by simp
    next
      case None
      with assms(3) ic pr obtain cx2 where
        rl: "run_loop dk fe ?q1 cx1 0 = Some (Inr (err, cx2))" and ids: "ids = result cx2"
        by (auto simp: Run_def run_tx_def split: option.splits sum.splits)
      have "acc_inv fe ?n cx2 []"
        by (rule run_loop_invariant [OF rl c1, where P = "\<lambda>cx. acc_inv fe ?n cx []"])
           (auto intro: a1 st)
      with ids acc_inv_distinct show ?thesis by simp
    qed
  qed
qed

theorem Run_result_distinct_witness:
  "ctx (NewIndexQuery 10 0 0 [0] [0] 0 4) = None
   \<and> distinct (bucket_ids (map (\<lambda>b. [b])) [KeyValue [5] [1], KeyValue [6] [2]])
   \<and> Run 1 (\<lambda>rt rf m lg. Inr [KeyValue [5] [1], KeyValue [6] [2]]) (\<lambda>k. Inr (map ucast k))
        (map (\<lambda>b. [b])) (NewIndexQuery 10 0 0 [0] [0] 0 4) = Some (Inr ([[2], [1]], None))
   \<and> distinct [[2], [1 :: 8 word]]"
proof -
  let ?q = "NewIndexQuery 10 0 0 [0] [0] 0 4"
  let ?gb = "(\<lambda>rt rf m lg. Inr [KeyValue [5] [1], KeyValue [6] [2]]) :: getBucket"
  let ?fe = "map (\<lambda>b. [b]) :: forEachID"
  let ?dk = "(\<lambda>k. Inr (map ucast k)) :: decodeKey"
  have h1: "ctx ?q = None" by (simp add: NewIndexQuery_def)
  have d: "distinct (bucket_ids ?fe [KeyValue [5] [1], KeyValue [6] [2]])" by simp
  then have h2: "\<forall>m \<in> set (mods ?q). \<forall>b. ?gb (rootType ?q) (rootFlavor ?q) m (league ?q) = Inr b
      \<longrightarrow> distinct (bucket_ids ?fe b)" by simp
  have h3: "Run 1 ?gb ?dk ?fe ?q = Some (Inr ([[2], [1]], None))"
    by (simp add: run_defs run_loop.simps)
  from Run_result_distinct [of ?q ?gb ?fe 1 ?dk "[[2], [1]]" None, OF h1 h2 h3]
  have "distinct [[2], [1 :: 8 word]]" by (rule conjunct1)
  with h1 d h3 show ?thesis by (intro conjI)
qed

end
